theory Spec2Isabelle
  imports Main "HOL-Library.Monad_Syntax" "HOL-Library.Word"
begin

section \<open>The node store of \<open>sjtu::map\<close> (src/map.hpp)\<close>

text \<open>
  The container is a red-black tree of heap nodes linked by raw pointers, including a
  parent back-pointer.  A pointer is \<open>Null\<close> or the address of a cell; the store maps
  the addresses of live cells to their content.  Every function that dereferences a
  pointer returns an \<open>option\<close>: \<open>None\<close> stands for an execution that does not return
  normally (a null or dangling dereference, or a loop that runs forever).  The two
  exceptions of the library are values of the type \<open>error\<close>.

  The ordering predicate \<open>Compare\<close> is instantiated with \<open>std::less\<close> on a totally
  ordered key type, written \<open><\<close>.  \<open>map_size\<close> is a \<open>size_t\<close>, a 64-bit word.
\<close>

type_synonym addr = nat

datatype ptr = Null | Ptr addr

datatype error = Invalid_iterator | Index_out_of_bound

record ('k, 'v) node =
  key :: 'k
  val :: 'v
  left :: ptr
  right :: ptr
  parent :: ptr
  color :: bool

text \<open>The data members of a map object: \<open>root\<close>, \<open>end_node\<close>, \<open>map_size\<close>.\<close>

record map_obj =
  root :: ptr
  end_node :: ptr
  map_size :: "64 word"

text \<open>
  A member function runs on the members of \<open>*this\<close> together with the node store.
  \<open>nxt\<close> is the allocator: the address that the next \<open>new Node\<close> returns.
\<close>

record ('k, 'v) rbt = map_obj +
  heap :: "addr \<rightharpoonup> ('k, 'v) node"
  nxt :: addr

definition node_at :: "('k, 'v) rbt \<Rightarrow> ptr \<Rightarrow> ('k, 'v) node option" where
  "node_at s p = (case p of Null \<Rightarrow> None | Ptr a \<Rightarrow> heap s a)"

definition upd :: "ptr \<Rightarrow> (('k, 'v) node \<Rightarrow> ('k, 'v) node) \<Rightarrow> ('k, 'v) rbt \<Rightarrow> ('k, 'v) rbt option" where
  "upd p f s = (case p of Null \<Rightarrow> None
     | Ptr a \<Rightarrow> (case heap s a of None \<Rightarrow> None
         | Some n \<Rightarrow> Some (s\<lparr>heap := (heap s)(a \<mapsto> f n)\<rparr>)))"

definition set_left :: "ptr \<Rightarrow> ptr \<Rightarrow> ('k, 'v) rbt \<Rightarrow> ('k, 'v) rbt option" where
  "set_left p q = upd p (\<lambda>n. n\<lparr>left := q\<rparr>)"

definition set_right :: "ptr \<Rightarrow> ptr \<Rightarrow> ('k, 'v) rbt \<Rightarrow> ('k, 'v) rbt option" where
  "set_right p q = upd p (\<lambda>n. n\<lparr>right := q\<rparr>)"

definition set_parent :: "ptr \<Rightarrow> ptr \<Rightarrow> ('k, 'v) rbt \<Rightarrow> ('k, 'v) rbt option" where
  "set_parent p q = upd p (\<lambda>n. n\<lparr>parent := q\<rparr>)"

definition set_color :: "ptr \<Rightarrow> bool \<Rightarrow> ('k, 'v) rbt \<Rightarrow> ('k, 'v) rbt option" where
  "set_color p c = upd p (\<lambda>n. n\<lparr>color := c\<rparr>)"

text \<open>\<open>y != nullptr && y->color\<close>\<close>

definition is_red :: "('k, 'v) rbt \<Rightarrow> ptr \<Rightarrow> bool option" where
  "is_red s p = (case p of Null \<Rightarrow> Some False | Ptr a \<Rightarrow> map_option color (heap s a))"

section \<open>Rotations\<close>

definition leftRotate :: "ptr \<Rightarrow> ('k, 'v) rbt \<Rightarrow> ('k, 'v) rbt option" where
  "leftRotate x s = do {
     xn \<leftarrow> node_at s x;
     let y = right xn;
     yn \<leftarrow> node_at s y;
     s \<leftarrow> set_right x (left yn) s;
     yn \<leftarrow> node_at s y;
     s \<leftarrow> (if left yn \<noteq> Null then set_parent (left yn) x s else Some s);
     xn \<leftarrow> node_at s x;
     s \<leftarrow> set_parent y (parent xn) s;
     xn \<leftarrow> node_at s x;
     s \<leftarrow> (if parent xn = Null then Some (s\<lparr>root := y\<rparr>)
          else do {
            pn \<leftarrow> node_at s (parent xn);
            if x = left pn then set_left (parent xn) y s else set_right (parent xn) y s
          });
     s \<leftarrow> set_left y x s;
     set_parent x y s
   }"

definition rightRotate :: "ptr \<Rightarrow> ('k, 'v) rbt \<Rightarrow> ('k, 'v) rbt option" where
  "rightRotate x s = do {
     xn \<leftarrow> node_at s x;
     let y = left xn;
     yn \<leftarrow> node_at s y;
     s \<leftarrow> set_left x (right yn) s;
     yn \<leftarrow> node_at s y;
     s \<leftarrow> (if right yn \<noteq> Null then set_parent (right yn) x s else Some s);
     xn \<leftarrow> node_at s x;
     s \<leftarrow> set_parent y (parent xn) s;
     xn \<leftarrow> node_at s x;
     s \<leftarrow> (if parent xn = Null then Some (s\<lparr>root := y\<rparr>)
          else do {
            pn \<leftarrow> node_at s (parent xn);
            if x = right pn then set_right (parent xn) y s else set_left (parent xn) y s
          });
     s \<leftarrow> set_right y x s;
     set_parent x y s
   }"

section \<open>Insertion\<close>

text \<open>
  The loop of \<open>fixInsert\<close>; one unfolding is one test of the loop condition followed,
  when it holds, by one run of the body.  Recolouring leaves every link as it is, so the
  links read before a recolouring are still the links after it; after a rotation they
  are read again.
\<close>

partial_function (option) fixInsert_loop :: "ptr \<Rightarrow> ('k, 'v) rbt \<Rightarrow> ('k, 'v) rbt option" where
  "fixInsert_loop z s =
     (case node_at s z of None \<Rightarrow> None
      | Some zn \<Rightarrow>
         if parent zn = Null then Some s
         else (case node_at s (parent zn) of None \<Rightarrow> None
           | Some pn \<Rightarrow>
              if \<not> color pn then Some s
              else (case node_at s (parent pn) of None \<Rightarrow> None
                | Some gn \<Rightarrow>
                   if parent zn = left gn then do {
                     let y = right gn;
                     yred \<leftarrow> is_red s y;
                     if yred then do {
                       s \<leftarrow> set_color (parent zn) False s;
                       s \<leftarrow> set_color y False s;
                       s \<leftarrow> set_color (parent pn) True s;
                       fixInsert_loop (parent pn) s
                     } else do {
                       (z, s) \<leftarrow> (if z = right pn
                                  then do { s \<leftarrow> leftRotate (parent zn) s; Some (parent zn, s) }
                                  else Some (z, s));
                       zn \<leftarrow> node_at s z;
                       s \<leftarrow> set_color (parent zn) False s;
                       pn \<leftarrow> node_at s (parent zn);
                       s \<leftarrow> set_color (parent pn) True s;
                       s \<leftarrow> rightRotate (parent pn) s;
                       fixInsert_loop z s
                     }
                   } else do {
                     let y = left gn;
                     yred \<leftarrow> is_red s y;
                     if yred then do {
                       s \<leftarrow> set_color (parent zn) False s;
                       s \<leftarrow> set_color y False s;
                       s \<leftarrow> set_color (parent pn) True s;
                       fixInsert_loop (parent pn) s
                     } else do {
                       (z, s) \<leftarrow> (if z = left pn
                                  then do { s \<leftarrow> rightRotate (parent zn) s; Some (parent zn, s) }
                                  else Some (z, s));
                       zn \<leftarrow> node_at s z;
                       s \<leftarrow> set_color (parent zn) False s;
                       pn \<leftarrow> node_at s (parent zn);
                       s \<leftarrow> set_color (parent pn) True s;
                       s \<leftarrow> leftRotate (parent pn) s;
                       fixInsert_loop z s
                     }
                   })))"

declare fixInsert_loop.simps [code]

definition fixInsert :: "ptr \<Rightarrow> ('k, 'v) rbt \<Rightarrow> ('k, 'v) rbt option" where
  "fixInsert z s = do {
     s \<leftarrow> fixInsert_loop z s;
     set_color (root s) False s
   }"

text \<open>
  The descent of \<open>insertNode\<close>: \<open>Inl x\<close> is the early return (the key exists at
  \<open>x\<close>), \<open>Inr y\<close> the exit of the loop with the last node visited.
\<close>

partial_function (option) insert_loop ::
  "(addr \<rightharpoonup> ('k::linorder, 'v) node) \<Rightarrow> 'k \<Rightarrow> ptr \<Rightarrow> ptr \<Rightarrow> (ptr + ptr) option" where
  "insert_loop h k y x =
     (case x of Null \<Rightarrow> Some (Inr y)
      | Ptr a \<Rightarrow> (case h a of None \<Rightarrow> None
          | Some xn \<Rightarrow>
             if k < key xn then insert_loop h k x (left xn)
             else if key xn < k then insert_loop h k x (right xn)
             else Some (Inl x)))"

declare insert_loop.simps [code]

text \<open>\<open>new Node(val, p)\<close>: a fresh cell, red, without children.\<close>

definition new_Node :: "'k \<times> 'v \<Rightarrow> ptr \<Rightarrow> ('k, 'v) rbt \<Rightarrow> ptr \<times> ('k, 'v) rbt" where
  "new_Node v p s =
     (Ptr (nxt s),
      s\<lparr>heap := (heap s)(nxt s \<mapsto>
           \<lparr>key = fst v, val = snd v, left = Null, right = Null, parent = p, color = True\<rparr>),
        nxt := Suc (nxt s)\<rparr>)"

definition insertNode :: "'k \<times> 'v \<Rightarrow> ('k::linorder, 'v) rbt \<Rightarrow> (ptr \<times> ('k, 'v) rbt) option" where
  "insertNode v s = do {
     r \<leftarrow> insert_loop (heap s) (fst v) Null (root s);
     case r of Inl x \<Rightarrow> Some (x, s)
     | Inr y \<Rightarrow> do {
         let (z, s) = new_Node v y s;
         s \<leftarrow> (if y = Null then Some (s\<lparr>root := z\<rparr>)
              else do {
                yn \<leftarrow> node_at s y;
                if fst v < key yn then set_left y z s else set_right y z s
              });
         s \<leftarrow> fixInsert z s;
         Some (z, s\<lparr>map_size := map_size s + 1\<rparr>)
       }
   }"

section \<open>Lookup and extremal nodes\<close>

partial_function (option) findNode_loop ::
  "(addr \<rightharpoonup> ('k::linorder, 'v) node) \<Rightarrow> 'k \<Rightarrow> ptr \<Rightarrow> ptr option" where
  "findNode_loop h k current =
     (case current of Null \<Rightarrow> Some Null
      | Ptr a \<Rightarrow> (case h a of None \<Rightarrow> None
          | Some n \<Rightarrow>
             if k < key n then findNode_loop h k (left n)
             else if key n < k then findNode_loop h k (right n)
             else Some current))"

declare findNode_loop.simps [code]

definition findNode :: "('k::linorder, 'v) rbt \<Rightarrow> 'k \<Rightarrow> ptr option" where
  "findNode s k = findNode_loop (heap s) k (root s)"

partial_function (option) minimum :: "(addr \<rightharpoonup> ('k, 'v) node) \<Rightarrow> ptr \<Rightarrow> ptr option" where
  "minimum h x =
     (case x of Null \<Rightarrow> None
      | Ptr a \<Rightarrow> (case h a of None \<Rightarrow> None
          | Some n \<Rightarrow> if left n \<noteq> Null then minimum h (left n) else Some x))"

declare minimum.simps [code]

partial_function (option) maximum_loop :: "(addr \<rightharpoonup> ('k, 'v) node) \<Rightarrow> ptr \<Rightarrow> ptr option" where
  "maximum_loop h x =
     (case x of Null \<Rightarrow> None
      | Ptr a \<Rightarrow> (case h a of None \<Rightarrow> None
          | Some n \<Rightarrow> if right n \<noteq> Null then maximum_loop h (right n) else Some x))"

declare maximum_loop.simps [code]

definition maximum :: "(addr \<rightharpoonup> ('k, 'v) node) \<Rightarrow> ptr \<Rightarrow> ptr option" where
  "maximum h x = (if x = Null then Some Null else maximum_loop h x)"

section \<open>Erasure\<close>

definition transplant :: "ptr \<Rightarrow> ptr \<Rightarrow> ('k, 'v) rbt \<Rightarrow> ('k, 'v) rbt option" where
  "transplant u v s = do {
     un \<leftarrow> node_at s u;
     s \<leftarrow> (if parent un = Null then Some (s\<lparr>root := v\<rparr>)
          else do {
            pn \<leftarrow> node_at s (parent un);
            if u = left pn then set_left (parent un) v s else set_right (parent un) v s
          });
     if v \<noteq> Null then do { un \<leftarrow> node_at s u; set_parent v (parent un) s } else Some s
   }"

text \<open>
  The loop of \<open>fixDelete\<close>; it returns the final \<open>x\<close> with the state.  With \<open>x\<close> null
  and different from the root, the body dereferences \<open>x\<close>.
\<close>

partial_function (option) fixDelete_loop :: "ptr \<Rightarrow> ('k, 'v) rbt \<Rightarrow> (ptr \<times> ('k, 'v) rbt) option" where
  "fixDelete_loop x s =
     (if x = root s then Some (x, s)
      else (case node_at s x of None \<Rightarrow> None
        | Some xn \<Rightarrow>
           if color xn then Some (x, s)
           else (case node_at s (parent xn) of None \<Rightarrow> None
             | Some pn \<Rightarrow>
                if x = left pn then do {
                  let w = right pn;
                  wn \<leftarrow> node_at s w;
                  (w, s) \<leftarrow> (if color wn then do {
                               s \<leftarrow> set_color w False s;
                               s \<leftarrow> set_color (parent xn) True s;
                               s \<leftarrow> leftRotate (parent xn) s;
                               xn \<leftarrow> node_at s x;
                               pn \<leftarrow> node_at s (parent xn);
                               Some (right pn, s)
                             } else Some (w, s));
                  wn \<leftarrow> node_at s w;
                  lred \<leftarrow> is_red s (left wn);
                  rred \<leftarrow> is_red s (right wn);
                  if \<not> lred \<and> \<not> rred then do {
                    s \<leftarrow> set_color w True s;
                    xn \<leftarrow> node_at s x;
                    fixDelete_loop (parent xn) s
                  } else do {
                    (w, s) \<leftarrow> (if \<not> rred then do {
                                 s \<leftarrow> (if left wn \<noteq> Null then set_color (left wn) False s else Some s);
                                 s \<leftarrow> set_color w True s;
                                 s \<leftarrow> rightRotate w s;
                                 xn \<leftarrow> node_at s x;
                                 pn \<leftarrow> node_at s (parent xn);
                                 Some (right pn, s)
                               } else Some (w, s));
                    xn \<leftarrow> node_at s x;
                    pn \<leftarrow> node_at s (parent xn);
                    s \<leftarrow> set_color w (color pn) s;
                    s \<leftarrow> set_color (parent xn) False s;
                    wn \<leftarrow> node_at s w;
                    s \<leftarrow> (if right wn \<noteq> Null then set_color (right wn) False s else Some s);
                    s \<leftarrow> leftRotate (parent xn) s;
                    fixDelete_loop (root s) s
                  }
                } else do {
                  let w = left pn;
                  wn \<leftarrow> node_at s w;
                  (w, s) \<leftarrow> (if color wn then do {
                               s \<leftarrow> set_color w False s;
                               s \<leftarrow> set_color (parent xn) True s;
                               s \<leftarrow> rightRotate (parent xn) s;
                               xn \<leftarrow> node_at s x;
                               pn \<leftarrow> node_at s (parent xn);
                               Some (left pn, s)
                             } else Some (w, s));
                  wn \<leftarrow> node_at s w;
                  rred \<leftarrow> is_red s (right wn);
                  lred \<leftarrow> is_red s (left wn);
                  if \<not> rred \<and> \<not> lred then do {
                    s \<leftarrow> set_color w True s;
                    xn \<leftarrow> node_at s x;
                    fixDelete_loop (parent xn) s
                  } else do {
                    (w, s) \<leftarrow> (if \<not> lred then do {
                                 s \<leftarrow> (if right wn \<noteq> Null then set_color (right wn) False s else Some s);
                                 s \<leftarrow> set_color w True s;
                                 s \<leftarrow> leftRotate w s;
                                 xn \<leftarrow> node_at s x;
                                 pn \<leftarrow> node_at s (parent xn);
                                 Some (left pn, s)
                               } else Some (w, s));
                    xn \<leftarrow> node_at s x;
                    pn \<leftarrow> node_at s (parent xn);
                    s \<leftarrow> set_color w (color pn) s;
                    s \<leftarrow> set_color (parent xn) False s;
                    wn \<leftarrow> node_at s w;
                    s \<leftarrow> (if left wn \<noteq> Null then set_color (left wn) False s else Some s);
                    s \<leftarrow> rightRotate (parent xn) s;
                    fixDelete_loop (root s) s
                  }
                })))"

declare fixDelete_loop.simps [code]

definition fixDelete :: "ptr \<Rightarrow> ('k, 'v) rbt \<Rightarrow> ('k, 'v) rbt option" where
  "fixDelete x s = do {
     (x, s) \<leftarrow> fixDelete_loop x s;
     if x \<noteq> Null then set_color x False s else Some s
   }"

text \<open>\<open>delete z\<close>: the cell leaves the store.\<close>

definition delete_cell :: "ptr \<Rightarrow> ('k, 'v) rbt \<Rightarrow> ('k, 'v) rbt option" where
  "delete_cell p s = (case p of Null \<Rightarrow> Some s
     | Ptr a \<Rightarrow> (case heap s a of None \<Rightarrow> None
         | Some n \<Rightarrow> Some (s\<lparr>heap := (heap s)(a := None)\<rparr>)))"

text \<open>
  The first part of \<open>deleteNode\<close>, up to the test that guards \<open>fixDelete\<close>: the node is
  unlinked and the result is \<open>(y_original_color, x, state)\<close>.
\<close>

definition unlink :: "ptr \<Rightarrow> ('k, 'v) rbt \<Rightarrow> (bool \<times> ptr \<times> ('k, 'v) rbt) option" where
  "unlink z s = do {
     zn \<leftarrow> node_at s z;
     if left zn = Null then do {
       s \<leftarrow> transplant z (right zn) s;
       Some (color zn, right zn, s)
     } else if right zn = Null then do {
       s \<leftarrow> transplant z (left zn) s;
       Some (color zn, left zn, s)
     } else do {
       y \<leftarrow> minimum (heap s) (right zn);
       yn \<leftarrow> node_at s y;
       let y_original_color = color yn;
       let x = right yn;
       s \<leftarrow> (if parent yn = z then (if x \<noteq> Null then set_parent x y s else Some s)
            else do {
              s \<leftarrow> transplant y (right yn) s;
              zn \<leftarrow> node_at s z;
              s \<leftarrow> set_right y (right zn) s;
              yn \<leftarrow> node_at s y;
              set_parent (right yn) y s
            });
       s \<leftarrow> transplant z y s;
       zn \<leftarrow> node_at s z;
       s \<leftarrow> set_left y (left zn) s;
       yn \<leftarrow> node_at s y;
       s \<leftarrow> set_parent (left yn) y s;
       zn \<leftarrow> node_at s z;
       s \<leftarrow> set_color y (color zn) s;
       Some (y_original_color, x, s)
     }
   }"

definition deleteNode :: "ptr \<Rightarrow> ('k, 'v) rbt \<Rightarrow> ('k, 'v) rbt option" where
  "deleteNode z s =
     (if z = Null then Some s
      else do {
        (y_original_color, x, s) \<leftarrow> unlink z s;
        s \<leftarrow> (if \<not> y_original_color \<and> x \<noteq> Null then fixDelete x s else Some s);
        s \<leftarrow> delete_cell z s;
        Some (s\<lparr>map_size := map_size s - 1\<rparr>)
      })"

section \<open>Destruction and deep copy\<close>

partial_function (option) destroy :: "ptr \<Rightarrow> ('k, 'v) rbt \<Rightarrow> ('k, 'v) rbt option" where
  "destroy nd s =
     (case nd of Null \<Rightarrow> Some s
      | Ptr a \<Rightarrow> do {
          n \<leftarrow> node_at s nd;
          s \<leftarrow> destroy (left n) s;
          n \<leftarrow> node_at s nd;
          s \<leftarrow> destroy (right n) s;
          n \<leftarrow> node_at s nd;
          delete_cell nd s
        })"

declare destroy.simps [code]

partial_function (option) copy :: "ptr \<Rightarrow> ptr \<Rightarrow> ('k, 'v) rbt \<Rightarrow> (ptr \<times> ('k, 'v) rbt) option" where
  "copy nd par s =
     (case nd of Null \<Rightarrow> Some (Null, s)
      | Ptr a \<Rightarrow> do {
          n \<leftarrow> node_at s nd;
          let (new_node, s) = new_Node (key n, val n) par s;
          n \<leftarrow> node_at s nd;
          s \<leftarrow> set_color new_node (color n) s;
          n \<leftarrow> node_at s nd;
          (l, s) \<leftarrow> copy (left n) new_node s;
          s \<leftarrow> set_left new_node l s;
          n \<leftarrow> node_at s nd;
          (r, s) \<leftarrow> copy (right n) new_node s;
          s \<leftarrow> set_right new_node r s;
          Some (new_node, s)
        })"

declare copy.simps [code]

section \<open>Map objects, iterators and the public interface\<close>

text \<open>
  Several map objects live side by side and share the node store; an object is named by
  its address.  \<open>view this w\<close> is what a member function called on \<open>this\<close> sees,
  \<open>put this s w\<close> writes its effect back.
\<close>

type_synonym mid = nat

record ('k, 'v) world =
  cells :: "addr \<rightharpoonup> ('k, 'v) node"
  brk :: addr
  objs :: "mid \<Rightarrow> map_obj"

definition view :: "mid \<Rightarrow> ('k, 'v) world \<Rightarrow> ('k, 'v) rbt" where
  "view this w =
     \<lparr>root = root (objs w this), end_node = end_node (objs w this),
      map_size = map_size (objs w this), heap = cells w, nxt = brk w\<rparr>"

definition put :: "mid \<Rightarrow> ('k, 'v) rbt \<Rightarrow> ('k, 'v) world \<Rightarrow> ('k, 'v) world" where
  "put this s w =
     \<lparr>cells = heap s, brk = nxt s,
      objs = (objs w)(this := \<lparr>root = root s, end_node = end_node s, map_size = map_size s\<rparr>)\<rparr>"

text \<open>An iterator: the node it denotes and the container it was made for.\<close>

record iterator =
  current :: ptr
  container :: "mid option"

text \<open>The climbing loops of \<open>operator++\<close> and \<open>operator--\<close>; the result is the final \<open>parent\<close>.\<close>

partial_function (option) climb_inc :: "(addr \<rightharpoonup> ('k, 'v) node) \<Rightarrow> ptr \<Rightarrow> ptr \<Rightarrow> ptr option" where
  "climb_inc h cur par =
     (case par of Null \<Rightarrow> Some Null
      | Ptr p \<Rightarrow> (case h p of None \<Rightarrow> None
          | Some pn \<Rightarrow> if cur = right pn then climb_inc h par (parent pn) else Some par))"

declare climb_inc.simps [code]

partial_function (option) climb_dec :: "(addr \<rightharpoonup> ('k, 'v) node) \<Rightarrow> ptr \<Rightarrow> ptr \<Rightarrow> ptr option" where
  "climb_dec h cur par =
     (case par of Null \<Rightarrow> Some Null
      | Ptr p \<Rightarrow> (case h p of None \<Rightarrow> None
          | Some pn \<Rightarrow> if cur = left pn then climb_dec h par (parent pn) else Some par))"

declare climb_dec.simps [code]

definition iter_inc :: "('k, 'v) world \<Rightarrow> iterator \<Rightarrow> (error + iterator) option" where
  "iter_inc w it =
     (case current it of Null \<Rightarrow> Some (Inl Invalid_iterator)
      | Ptr a \<Rightarrow> do {
          cn \<leftarrow> cells w a;
          cur \<leftarrow> (if right cn \<noteq> Null then minimum (cells w) (right cn)
                  else climb_inc (cells w) (current it) (parent cn));
          Some (Inr (it\<lparr>current := cur\<rparr>))
        })"

definition iter_dec :: "('k, 'v) world \<Rightarrow> iterator \<Rightarrow> (error + iterator) option" where
  "iter_dec w it =
     (case current it of
        Null \<Rightarrow> (case container it of None \<Rightarrow> None
          | Some c \<Rightarrow>
             if root (objs w c) = Null then Some (Inl Invalid_iterator)
             else do {
               cur \<leftarrow> maximum (cells w) (root (objs w c));
               Some (Inr (it\<lparr>current := cur\<rparr>))
             })
      | Ptr a \<Rightarrow> do {
          cn \<leftarrow> cells w a;
          cur \<leftarrow> (if left cn \<noteq> Null then maximum (cells w) (left cn)
                  else climb_dec (cells w) (current it) (parent cn));
          if cur = Null then Some (Inl Invalid_iterator)
          else Some (Inr (it\<lparr>current := cur\<rparr>))
        })"

text \<open>\<open>operator*\<close>: the entry the iterator denotes.\<close>

definition iter_deref :: "('k, 'v) world \<Rightarrow> iterator \<Rightarrow> (error + 'k \<times> 'v) option" where
  "iter_deref w it =
     (case current it of Null \<Rightarrow> Some (Inl Invalid_iterator)
      | Ptr a \<Rightarrow> do { n \<leftarrow> cells w a; Some (Inr (key n, val n)) })"

text \<open>The constructors and the assignment operator.\<close>

definition map_ctor :: "mid \<Rightarrow> ('k, 'v) world \<Rightarrow> ('k, 'v) world" where
  "map_ctor this w = w\<lparr>objs := (objs w)(this := \<lparr>root = Null, end_node = Null, map_size = 0\<rparr>)\<rparr>"

definition map_copy_ctor :: "mid \<Rightarrow> mid \<Rightarrow> ('k, 'v) world \<Rightarrow> ('k, 'v) world option" where
  "map_copy_ctor this other w = do {
     let s = (view this w)\<lparr>map_size := map_size (objs w other)\<rparr>;
     (r, s) \<leftarrow> copy (root (objs w other)) Null s;
     Some (put this (s\<lparr>root := r, end_node := Null\<rparr>) w)
   }"

definition assign :: "mid \<Rightarrow> mid \<Rightarrow> ('k, 'v) world \<Rightarrow> ('k, 'v) world option" where
  "assign this other w =
     (if this = other then Some w
      else do {
        s \<leftarrow> destroy (root (view this w)) (view this w);
        let w = put this s w;
        (r, s) \<leftarrow> copy (root (objs w other)) Null (view this w);
        Some (put this (s\<lparr>root := r, map_size := map_size (objs w other)\<rparr>) w)
      })"

text \<open>
  Element access.  A reference to a mapped value is the address of the node that holds
  it.  The non-const members pass the state on; the const members only read it.
\<close>

definition at_map :: "mid \<Rightarrow> 'k \<Rightarrow> ('k::linorder, 'v) world \<Rightarrow> ((error + ptr) \<times> ('k, 'v) world) option" where
  "at_map this k w = do {
     nd \<leftarrow> findNode (view this w) k;
     if nd = Null then Some (Inl Index_out_of_bound, w) else Some (Inr nd, w)
   }"

definition at_const :: "mid \<Rightarrow> 'k \<Rightarrow> ('k::linorder, 'v) world \<Rightarrow> (error + ptr) option" where
  "at_const this k w = do {
     nd \<leftarrow> findNode (view this w) k;
     if nd = Null then Some (Inl Index_out_of_bound) else Some (Inr nd)
   }"

text \<open>\<open>operator[]\<close>; \<open>d\<close> is the default-constructed value \<open>T()\<close>.\<close>

definition subscript :: "'v \<Rightarrow> mid \<Rightarrow> 'k \<Rightarrow> ('k::linorder, 'v) world \<Rightarrow> (ptr \<times> ('k, 'v) world) option" where
  "subscript d this k w = do {
     nd \<leftarrow> findNode (view this w) k;
     if nd = Null then do {
       (nd, s) \<leftarrow> insertNode (k, d) (view this w);
       Some (nd, put this s w)
     } else Some (nd, w)
   }"

definition subscript_const :: "mid \<Rightarrow> 'k \<Rightarrow> ('k::linorder, 'v) world \<Rightarrow> (error + ptr) option" where
  "subscript_const this k w = at_const this k w"

text \<open>Reading and writing through a reference to a mapped value.\<close>

definition load :: "ptr \<Rightarrow> ('k, 'v) world \<Rightarrow> 'v option" where
  "load r w = (case r of Null \<Rightarrow> None | Ptr a \<Rightarrow> map_option val (cells w a))"

definition store :: "ptr \<Rightarrow> 'v \<Rightarrow> ('k, 'v) world \<Rightarrow> ('k, 'v) world option" where
  "store r v w = (case r of Null \<Rightarrow> None
     | Ptr a \<Rightarrow> (case cells w a of None \<Rightarrow> None
         | Some n \<Rightarrow> Some (w\<lparr>cells := (cells w)(a \<mapsto> n\<lparr>val := v\<rparr>)\<rparr>)))"

text \<open>Iterators to the first element and past the end.\<close>

definition begin_map :: "mid \<Rightarrow> ('k, 'v) world \<Rightarrow> iterator option" where
  "begin_map this w =
     (if root (objs w this) = Null then Some \<lparr>current = Null, container = Some this\<rparr>
      else do {
        m \<leftarrow> minimum (cells w) (root (objs w this));
        Some \<lparr>current = m, container = Some this\<rparr>
      })"

definition end_map :: "mid \<Rightarrow> iterator" where
  "end_map this = \<lparr>current = Null, container = Some this\<rparr>"

definition empty_map :: "mid \<Rightarrow> ('k, 'v) world \<Rightarrow> bool" where
  "empty_map this w = (map_size (objs w this) = 0)"

definition size_map :: "mid \<Rightarrow> ('k, 'v) world \<Rightarrow> 64 word" where
  "size_map this w = map_size (objs w this)"

definition clear :: "mid \<Rightarrow> ('k, 'v) world \<Rightarrow> ('k, 'v) world option" where
  "clear this w = do {
     s \<leftarrow> destroy (root (view this w)) (view this w);
     Some (put this (s\<lparr>root := Null, map_size := 0\<rparr>) w)
   }"

definition insert_map ::
  "mid \<Rightarrow> 'k \<times> 'v \<Rightarrow> ('k::linorder, 'v) world \<Rightarrow> ((iterator \<times> bool) \<times> ('k, 'v) world) option" where
  "insert_map this v w = do {
     nd \<leftarrow> findNode (view this w) (fst v);
     if nd \<noteq> Null then Some ((\<lparr>current = nd, container = Some this\<rparr>, False), w)
     else do {
       (nd, s) \<leftarrow> insertNode v (view this w);
       Some ((\<lparr>current = nd, container = Some this\<rparr>, True), put this s w)
     }
   }"

definition erase :: "mid \<Rightarrow> iterator \<Rightarrow> ('k, 'v) world \<Rightarrow> ((error + unit) \<times> ('k, 'v) world) option" where
  "erase this pos w =
     (if container pos \<noteq> Some this \<or> current pos = Null then Some (Inl Invalid_iterator, w)
      else do {
        s \<leftarrow> deleteNode (current pos) (view this w);
        Some (Inr (), put this s w)
      })"

definition count_map :: "mid \<Rightarrow> 'k \<Rightarrow> ('k::linorder, 'v) world \<Rightarrow> 64 word option" where
  "count_map this k w = do {
     nd \<leftarrow> findNode (view this w) k;
     Some (if nd \<noteq> Null then 1 else 0)
   }"

definition find_map :: "mid \<Rightarrow> 'k \<Rightarrow> ('k::linorder, 'v) world \<Rightarrow> iterator option" where
  "find_map this k w = do {
     nd \<leftarrow> findNode (view this w) k;
     if nd = Null then Some (end_map this) else Some \<lparr>current = nd, container = Some this\<rparr>
   }"


section \<open>The tree a store holds\<close>

text \<open>
  \<open>tree_at h p par t\<close>: in the store \<open>h\<close>, the pointer \<open>p\<close> is the root of a subtree
  whose cells are laid out as \<open>t\<close> says, every cell pointing back to its parent
  (\<open>par\<close> for the root of the subtree).  The shape holds addresses only; keys, values
  and colours are read from the store.
\<close>

datatype shape = Leaf | Node shape addr shape

fun tree_at :: "(addr \<rightharpoonup> ('k, 'v) node) \<Rightarrow> ptr \<Rightarrow> ptr \<Rightarrow> shape \<Rightarrow> bool" where
  "tree_at h p par Leaf = (p = Null)"
| "tree_at h p par (Node l a r) =
     (p = Ptr a \<and>
      (case h a of None \<Rightarrow> False
       | Some n \<Rightarrow> parent n = par \<and> tree_at h (left n) (Ptr a) l \<and> tree_at h (right n) (Ptr a) r))"

fun inorder :: "shape \<Rightarrow> addr list" where
  "inorder Leaf = []"
| "inorder (Node l a r) = inorder l @ a # inorder r"

definition key_of :: "(addr \<rightharpoonup> ('k, 'v) node) \<Rightarrow> addr \<Rightarrow> 'k" where
  "key_of h a = key (the (h a))"

definition val_of :: "(addr \<rightharpoonup> ('k, 'v) node) \<Rightarrow> addr \<Rightarrow> 'v" where
  "val_of h a = val (the (h a))"

definition red :: "(addr \<rightharpoonup> ('k, 'v) node) \<Rightarrow> addr \<Rightarrow> bool" where
  "red h a = (case h a of None \<Rightarrow> False | Some n \<Rightarrow> color n)"

text \<open>The three red-black invariants of the claim, on the tree a store holds.\<close>

definition keys_ascending :: "(addr \<rightharpoonup> ('k::linorder, 'v) node) \<Rightarrow> shape \<Rightarrow> bool" where
  "keys_ascending h t = sorted_wrt (<) (map (key_of h) (inorder t))"

definition red_root :: "(addr \<rightharpoonup> ('k, 'v) node) \<Rightarrow> shape \<Rightarrow> bool" where
  "red_root h t = (case t of Leaf \<Rightarrow> False | Node l a r \<Rightarrow> red h a)"

fun no_red_red :: "(addr \<rightharpoonup> ('k, 'v) node) \<Rightarrow> shape \<Rightarrow> bool" where
  "no_red_red h Leaf = True"
| "no_red_red h (Node l a r) =
     (\<not> (red h a \<and> (red_root h l \<or> red_root h r)) \<and> no_red_red h l \<and> no_red_red h r)"

text \<open>The number of black nodes on each path from the root to a null reference, left to right.\<close>

fun black_counts :: "(addr \<rightharpoonup> ('k, 'v) node) \<Rightarrow> shape \<Rightarrow> nat list" where
  "black_counts h Leaf = [0]"
| "black_counts h (Node l a r) =
     map (\<lambda>n. if red h a then n else Suc n) (black_counts h l @ black_counts h r)"

definition equal_black_counts :: "(addr \<rightharpoonup> ('k, 'v) node) \<Rightarrow> shape \<Rightarrow> bool" where
  "equal_black_counts h t = list_all (\<lambda>n. n = hd (black_counts h t)) (black_counts h t)"

definition rb_invariants :: "(addr \<rightharpoonup> ('k::linorder, 'v) node) \<Rightarrow> shape \<Rightarrow> bool" where
  "rb_invariants h t = (keys_ascending h t \<and> no_red_red h t \<and> equal_black_counts h t)"

text \<open>The descent of \<open>findNode\<close>, on the shape.\<close>

fun find_shape :: "(addr \<rightharpoonup> ('k::linorder, 'v) node) \<Rightarrow> 'k \<Rightarrow> shape \<Rightarrow> ptr" where
  "find_shape h k Leaf = Null"
| "find_shape h k (Node l a r) =
     (if k < key_of h a then find_shape h k l
      else if key_of h a < k then find_shape h k r
      else Ptr a)"

text \<open>
  The map object \<open>this\<close> holds the tree \<open>t\<close>: its root points to cells laid out as
  \<open>t\<close>, with keys in strictly ascending order.
\<close>

definition holds_tree :: "mid \<Rightarrow> ('k::linorder, 'v) world \<Rightarrow> shape \<Rightarrow> bool" where
  "holds_tree this w t =
     (tree_at (cells w) (root (objs w this)) Null t \<and> keys_ascending (cells w) t)"

section \<open>Sequences of operations\<close>

text \<open>
  A client of the map object \<open>this\<close>: it inserts entries (\<open>m.insert({k, v})\<close>), erases keys
  (\<open>m.erase(m.find(k))\<close>) and assigns to mapped values, through \<open>operator[]\<close> (\<open>m[k] = v\<close>)
  or through \<open>at\<close> (\<open>m.at(k) = v\<close>).  An exception ends the call that raised it and the
  client goes on; \<open>d\<close> is the default-constructed value \<open>T()\<close>.  \<open>empty_world\<close> is a store
  without cells in which every map object is empty.
\<close>

datatype ('k, 'v) op = Insert 'k 'v | Erase 'k | Assign 'k 'v | Assign_at 'k 'v

definition empty_world :: "('k, 'v) world" where
  "empty_world =
     \<lparr>cells = Map.empty, brk = 0, objs = (\<lambda>_. \<lparr>root = Null, end_node = Null, map_size = 0\<rparr>)\<rparr>"

fun step :: "'v \<Rightarrow> mid \<Rightarrow> ('k::linorder, 'v) op \<Rightarrow> ('k, 'v) world \<Rightarrow> ('k, 'v) world option" where
  "step d this (Insert k v) w = map_option snd (insert_map this (k, v) w)"
| "step d this (Erase k) w = do {
     it \<leftarrow> find_map this k w;
     (r, w') \<leftarrow> erase this it w;
     Some w'
   }"
| "step d this (Assign k v) w = do {
     (r, w') \<leftarrow> subscript d this k w;
     store r v w'
   }"
| "step d this (Assign_at k v) w = do {
     (r, w') \<leftarrow> at_map this k w;
     case r of Inl e \<Rightarrow> Some w' | Inr p \<Rightarrow> store p v w'
   }"

fun run :: "'v \<Rightarrow> mid \<Rightarrow> ('k::linorder, 'v) op list \<Rightarrow> ('k, 'v) world \<Rightarrow> ('k, 'v) world option" where
  "run d this [] w = Some w"
| "run d this (x # xs) w = do { w' \<leftarrow> step d this x w; run d this xs w' }"

section \<open>Walking the tree with an iterator\<close>



section \<open>Deep copies\<close>

text \<open>
  Two trees of the same topology whose corresponding nodes carry the same key, value and
  colour.
\<close>

fun same_entries ::
  "(addr \<rightharpoonup> ('k, 'v) node) \<Rightarrow> shape \<Rightarrow> (addr \<rightharpoonup> ('k, 'v) node) \<Rightarrow> shape \<Rightarrow> bool" where
  "same_entries h Leaf h' Leaf = True"
| "same_entries h (Node l a r) h' (Node l' a' r') =
     (key_of h a = key_of h' a' \<and> val_of h a = val_of h' a' \<and> red h a = red h' a' \<and>
      same_entries h l h' l' \<and> same_entries h r h' r')"
| "same_entries h Leaf h' (Node l' a' r') = False"
| "same_entries h (Node l a r) h' Leaf = False"

text \<open>
  After a copy from \<open>other\<close> (holding \<open>ts\<close> in the world \<open>w\<close>) into \<open>this\<close>: \<open>this\<close> holds a
  tree \<open>t'\<close> with the entries, colours and topology of \<open>ts\<close>, its size is the size of
  \<open>other\<close>, no node of \<open>t'\<close> is a node of \<open>ts\<close>, and \<open>other\<close> still holds \<open>ts\<close> unchanged.
\<close>

definition is_deep_copy ::
  "('k, 'v) world \<Rightarrow> mid \<Rightarrow> shape \<Rightarrow> ('k, 'v) world \<Rightarrow> mid \<Rightarrow> shape \<Rightarrow> bool" where
  "is_deep_copy w other ts w' this t' =
     (tree_at (cells w') (root (objs w' this)) Null t' \<and>
      same_entries (cells w) ts (cells w') t' \<and>
      map_size (objs w' this) = map_size (objs w other) \<and>
      set (inorder t') \<inter> set (inorder ts) = {} \<and>
      tree_at (cells w') (root (objs w' other)) Null ts \<and>
      same_entries (cells w) ts (cells w') ts \<and>
      objs w' other = objs w other)"

text \<open>
  A world with two maps: map 1 holds the keys 1, 2, 3 (cells 1, 0, 2) and map 0 holds the
  key 7 (cell 3).  It is the world reached from the empty one by inserting 2, 1, 3 into
  map 1 and then 7 into map 0.
\<close>

definition two_maps :: "(nat, nat) world" where
  "two_maps =
     \<lparr>cells = [0 \<mapsto> \<lparr>key = 2, val = 20, left = Ptr 1, right = Ptr 2, parent = Null, color = False\<rparr>,
               1 \<mapsto> \<lparr>key = 1, val = 10, left = Null, right = Null, parent = Ptr 0, color = True\<rparr>,
               2 \<mapsto> \<lparr>key = 3, val = 30, left = Null, right = Null, parent = Ptr 0, color = True\<rparr>,
               3 \<mapsto> \<lparr>key = 7, val = 70, left = Null, right = Null, parent = Null, color = False\<rparr>],
      brk = 4,
      objs = (\<lambda>_. \<lparr>root = Null, end_node = Null, map_size = 0\<rparr>)
               (1 := \<lparr>root = Ptr 0, end_node = Null, map_size = 3\<rparr>,
                0 := \<lparr>root = Ptr 3, end_node = Null, map_size = 1\<rparr>)\<rparr>"

section \<open>Paths from a node to the root\<close>

text \<open>
  The fix-up loops walk from a node towards the root.  A frame records one step of that
  walk: the parent passed and the sibling subtree left behind; \<open>plug c t\<close> is the whole
  tree when \<open>t\<close> sits below the frames \<open>c\<close> (innermost first), and \<open>path_at\<close> says that the
  store lays the frames out above the pointer \<open>p\<close>, up to the root pointer \<open>q\<close>.
\<close>

datatype frame = LeftOf addr shape | RightOf shape addr

fun plug :: "frame list \<Rightarrow> shape \<Rightarrow> shape" where
  "plug [] t = t"
| "plug (LeftOf a r # c) t = plug c (Node t a r)"
| "plug (RightOf l a # c) t = plug c (Node l a t)"

fun top :: "frame list \<Rightarrow> ptr \<Rightarrow> ptr" where
  "top [] par = par"
| "top (LeftOf a r # c) par = Ptr a"
| "top (RightOf l a # c) par = Ptr a"

fun path_at :: "(addr \<rightharpoonup> ('k, 'v) node) \<Rightarrow> ptr \<Rightarrow> frame list \<Rightarrow> ptr \<Rightarrow> ptr \<Rightarrow> bool" where
  "path_at h p [] q par = (q = p)"
| "path_at h p (LeftOf a r # c) q par =
     (case h a of None \<Rightarrow> False
      | Some n \<Rightarrow> left n = p \<and> parent n = top c par \<and>
          tree_at h (right n) (Ptr a) r \<and> path_at h (Ptr a) c q par)"
| "path_at h p (RightOf l a # c) q par =
     (case h a of None \<Rightarrow> False
      | Some n \<Rightarrow> right n = p \<and> parent n = top c par \<and>
          tree_at h (left n) (Ptr a) l \<and> path_at h (Ptr a) c q par)"

fun before :: "frame list \<Rightarrow> addr list" where
  "before [] = []"
| "before (LeftOf a r # c) = before c"
| "before (RightOf l a # c) = before c @ inorder l @ [a]"

fun after :: "frame list \<Rightarrow> addr list" where
  "after [] = []"
| "after (LeftOf a r # c) = a # inorder r @ after c"
| "after (RightOf l a # c) = after c"

definition links :: "('k, 'v) node \<Rightarrow> ptr \<times> ptr \<times> ptr" where
  "links n = (left n, right n, parent n)"

definition recolor :: "(addr \<rightharpoonup> ('k, 'v) node) \<Rightarrow> addr \<Rightarrow> bool \<Rightarrow> (addr \<rightharpoonup> ('k, 'v) node)" where
  "recolor h a c = (case h a of None \<Rightarrow> h | Some n \<Rightarrow> h(a \<mapsto> n\<lparr>color := c\<rparr>))"

definition relinkL :: "ptr \<Rightarrow> ptr \<Rightarrow> ('k, 'v) node \<Rightarrow> ('k, 'v) node" where
  "relinkL q q' n = (if q = left n then n\<lparr>left := q'\<rparr> else n\<lparr>right := q'\<rparr>)"

definition relinkR :: "ptr \<Rightarrow> ptr \<Rightarrow> ('k, 'v) node \<Rightarrow> ('k, 'v) node" where
  "relinkR q q' n = (if q = right n then n\<lparr>right := q'\<rparr> else n\<lparr>left := q'\<rparr>)"

definition data :: "('k, 'v) node \<Rightarrow> 'k \<times> 'v \<times> bool" where
  "data n = (key n, val n, color n)"

definition same_data :: "(addr \<rightharpoonup> ('k, 'v) node) \<Rightarrow> (addr \<rightharpoonup> ('k, 'v) node) \<Rightarrow> bool" where
  "same_data h h' = (\<forall>a. map_option data (h' a) = map_option data (h a))"

definition kv :: "('k, 'v) node \<Rightarrow> 'k \<times> 'v" where
  "kv n = (key n, val n)"

definition same_kv :: "(addr \<rightharpoonup> ('k, 'v) node) \<Rightarrow> (addr \<rightharpoonup> ('k, 'v) node) \<Rightarrow> bool" where
  "same_kv h h' = (\<forall>a. map_option kv (h' a) = map_option kv (h a))"

definition black_root :: "('k, 'v) rbt \<Rightarrow> bool" where
  "black_root s = (case root s of Null \<Rightarrow> True | Ptr a \<Rightarrow> \<not> red (heap s) a)"

definition at_hole :: "('k, 'v) rbt \<Rightarrow> addr \<Rightarrow> frame list \<Rightarrow> shape \<Rightarrow> bool" where
  "at_hole s z c t =
     (tree_at (heap s) (Ptr z) (top c Null) t \<and> path_at (heap s) (Ptr z) c (root s) Null \<and>
      distinct (inorder (plug c t)))"

definition fix_ok :: "('k, 'v) rbt \<Rightarrow> addr list \<Rightarrow> ('k, 'v) rbt option \<Rightarrow> bool" where
  "fix_ok s xs res =
     (\<exists>s' t'. res = Some s' \<and> tree_at (heap s') (root s') Null t' \<and> inorder t' = xs \<and>
        same_kv (heap s) (heap s') \<and> nxt s' = nxt s \<and> map_size s' = map_size s \<and>
        end_node s' = end_node s)"

fun node_of :: "frame \<Rightarrow> addr" where
  "node_of (LeftOf a r) = a"
| "node_of (RightOf l a) = a"

text \<open>
  The invariant of a map object between two calls: its root holds a tree with ascending
  keys, the root is black, and every live cell lies below the allocator's next address.
\<close>

definition rbt_inv :: "('k::linorder, 'v) rbt \<Rightarrow> shape \<Rightarrow> bool" where
  "rbt_inv s t =
     (tree_at (heap s) (root s) Null t \<and> keys_ascending (heap s) t \<and> black_root s \<and>
      (\<forall>a. heap s a \<noteq> None \<longrightarrow> a < nxt s))"

definition map_inv :: "mid \<Rightarrow> ('k::linorder, 'v) world \<Rightarrow> shape \<Rightarrow> bool" where
  "map_inv this w t = rbt_inv (view this w) t"

section \<open>What the fix-up loops keep\<close>

text \<open>
  The loops of \<open>fixInsert\<close> and \<open>fixDelete\<close> only recolour and rotate.  \<open>stays s0 L s\<close>: the
  state \<open>s\<close> still holds a tree whose nodes, in order, are \<open>L\<close>, with the keys and values of
  \<open>s0\<close>; \<open>inside L p\<close>: the pointer is null or a node of that tree.  \<open>fine R m\<close> is the
  statement that the computation \<open>m\<close>, when it returns, returns a result satisfying \<open>R\<close>.
\<close>

definition inside :: "addr list \<Rightarrow> ptr \<Rightarrow> bool" where
  "inside L p = (case p of Null \<Rightarrow> True | Ptr a \<Rightarrow> a \<in> set L)"

definition keeps :: "('k, 'v) rbt \<Rightarrow> ('k, 'v) rbt \<Rightarrow> bool" where
  "keeps s s' =
     (same_kv (heap s) (heap s') \<and> nxt s' = nxt s \<and> map_size s' = map_size s \<and>
      end_node s' = end_node s)"

definition stays :: "('k, 'v) rbt \<Rightarrow> addr list \<Rightarrow> ('k, 'v) rbt \<Rightarrow> bool" where
  "stays s0 L s =
     (distinct L \<and> (\<exists>t. tree_at (heap s) (root s) Null t \<and> inorder t = L) \<and> keeps s0 s)"

definition fine :: "('a \<Rightarrow> bool) \<Rightarrow> 'a option \<Rightarrow> bool" where
  "fine R m = (\<forall>r. m = Some r \<longrightarrow> R r)"

definition both :: "('k, 'v) rbt \<Rightarrow> addr list \<Rightarrow> ptr \<times> ('k, 'v) rbt \<Rightarrow> bool" where
  "both s0 L r = (stays s0 L (snd r) \<and> inside L (fst r))"

section \<open>What a client finds\<close>

text \<open>
  \<open>sound this w t\<close>: the map object \<open>this\<close> holds the tree \<open>t\<close> with ascending keys and every
  live cell lies below the allocator's next address.  \<open>finds this w k v\<close>: \<open>find(k)\<close>
  returns an iterator different from \<open>end()\<close> whose entry is \<open>(k, v)\<close>.  \<open>touches k x\<close>: the
  operation \<open>x\<close> erases the key \<open>k\<close> or assigns to its mapped value.
\<close>

definition sound :: "mid \<Rightarrow> ('k::linorder, 'v) world \<Rightarrow> shape \<Rightarrow> bool" where
  "sound this w t = (holds_tree this w t \<and> (\<forall>a. cells w a \<noteq> None \<longrightarrow> a < brk w))"

definition finds :: "mid \<Rightarrow> ('k::linorder, 'v) world \<Rightarrow> 'k \<Rightarrow> 'v \<Rightarrow> bool" where
  "finds this w k v =
     (case find_map this k w of None \<Rightarrow> False
      | Some it \<Rightarrow> it \<noteq> end_map this \<and> iter_deref w it = Some (Inr (k, v)))"

fun touches :: "'k \<Rightarrow> ('k, 'v) op \<Rightarrow> bool" where
  "touches k (Insert k' v) = False"
| "touches k (Erase k') = (k' = k)"
| "touches k (Assign k' v) = (k' = k)"
| "touches k (Assign_at k' v) = (k' = k)"


section \<open>Lookup, first and last node\<close>

lemma tree_at_Null [simp]: "tree_at h Null par t \<longleftrightarrow> t = Leaf"
  by (cases t) auto

lemma tree_at_Ptr:
  "tree_at h (Ptr a) par t \<longleftrightarrow>
     (\<exists>l r n. t = Node l a r \<and> h a = Some n \<and> parent n = par \<and>
        tree_at h (left n) (Ptr a) l \<and> tree_at h (right n) (Ptr a) r)"
  by (cases t) (auto split: option.splits)

lemma tree_at_NodeE:
  assumes "tree_at h p par (Node l a r)"
  obtains n where "p = Ptr a" "h a = Some n" "parent n = par"
    "tree_at h (left n) (Ptr a) l" "tree_at h (right n) (Ptr a) r"
  using assms by (auto split: option.splits)

lemma tree_at_live:
  "tree_at h p par t \<Longrightarrow> a \<in> set (inorder t) \<Longrightarrow> \<exists>n. h a = Some n"
  by (induction t arbitrary: p par) (auto split: option.splits)

lemma findNode_loop_tree:
  "tree_at h p par t \<Longrightarrow> findNode_loop h k p = Some (find_shape h k t)"
proof (induction t arbitrary: p par)
  case Leaf
  then show ?case by (subst findNode_loop.simps) simp
next
  case (Node l a r)
  from Node.prems obtain n where n: "p = Ptr a" "h a = Some n" "parent n = par"
    "tree_at h (left n) (Ptr a) l" "tree_at h (right n) (Ptr a) r"
    by (rule tree_at_NodeE)
  show ?case
    using n Node.IH(1) [OF n(4)] Node.IH(2) [OF n(5)]
    by (subst findNode_loop.simps) (simp add: key_of_def)
qed

lemma find_shape_absent:
  "k \<notin> key_of h ` set (inorder t) \<Longrightarrow> find_shape h k t = Null"
  by (induction t) auto

lemma find_shape_present:
  "keys_ascending h t \<Longrightarrow> a \<in> set (inorder t) \<Longrightarrow> find_shape h (key_of h a) t = Ptr a"
proof (induction t)
  case Leaf
  then show ?case by simp
next
  case (Node l x r)
  from Node.prems(1) have s: "keys_ascending h l" "keys_ascending h r"
    "\<forall>b \<in> set (inorder l). key_of h b < key_of h x"
    "\<forall>b \<in> set (inorder r). key_of h x < key_of h b"
    by (auto simp: keys_ascending_def sorted_wrt_append)
  from Node.prems(2) consider "a \<in> set (inorder l)" | "a = x" | "a \<in> set (inorder r)"
    by auto
  then show ?case
  proof cases
    case 1
    with s Node.IH(1) show ?thesis by auto
  next
    case 2
    then show ?thesis by simp
  next
    case 3
    with s Node.IH(2) show ?thesis by (auto simp: not_less_iff_gr_or_eq)
  qed
qed

lemma heap_view [simp]: "heap (view this w) = cells w"
  and root_view [simp]: "root (view this w) = root (objs w this)"
  and map_size_view [simp]: "map_size (view this w) = map_size (objs w this)"
  and nxt_view [simp]: "nxt (view this w) = brk w"
  by (simp_all add: view_def)

lemma findNode_present:
  "holds_tree this w t \<Longrightarrow> a \<in> set (inorder t) \<Longrightarrow>
   findNode (view this w) (key_of (cells w) a) = Some (Ptr a)"
  using findNode_loop_tree [of "cells w" "root (objs w this)" Null t]
  by (simp add: holds_tree_def findNode_def find_shape_present)

lemma findNode_absent:
  "holds_tree this w t \<Longrightarrow> k \<notin> key_of (cells w) ` set (inorder t) \<Longrightarrow>
   findNode (view this w) k = Some Null"
  using findNode_loop_tree [of "cells w" "root (objs w this)" Null t]
  by (simp add: holds_tree_def findNode_def find_shape_absent)

lemma minimum_tree:
  "tree_at h p par t \<Longrightarrow> t \<noteq> Leaf \<Longrightarrow> minimum h p = Some (Ptr (hd (inorder t)))"
proof (induction t arbitrary: p par)
  case Leaf
  then show ?case by simp
next
  case (Node l a r)
  from Node.prems(1) obtain n where n: "p = Ptr a" "h a = Some n" "parent n = par"
    "tree_at h (left n) (Ptr a) l" "tree_at h (right n) (Ptr a) r"
    by (rule tree_at_NodeE)
  show ?case
  proof (cases l)
    case Leaf
    with n show ?thesis by (subst minimum.simps) simp
  next
    case (Node l1 b l2)
    then have "l \<noteq> Leaf" "inorder l \<noteq> []" "left n \<noteq> Null"
      using n(4) by auto
    with n Node.IH(1) [OF n(4)] show ?thesis
      by (subst minimum.simps) simp
  qed
qed


lemma climb_dec_first:
  "tree_at h p par t \<Longrightarrow> t \<noteq> Leaf \<Longrightarrow>
   \<exists>mn. h (hd (inorder t)) = Some mn \<and> left mn = Null \<and>
     climb_dec h (Ptr (hd (inorder t))) (parent mn) = climb_dec h p par"
proof (induction t arbitrary: p par)
  case Leaf
  then show ?case by simp
next
  case (Node l a r)
  from Node.prems(1) obtain n where n: "p = Ptr a" "h a = Some n" "parent n = par"
    "tree_at h (left n) (Ptr a) l" "tree_at h (right n) (Ptr a) r"
    by (rule tree_at_NodeE)
  show ?case
  proof (cases l)
    case Leaf
    with n show ?thesis by simp
  next
    case (Node l1 b l2)
    then have ne: "l \<noteq> Leaf" and ne': "inorder l \<noteq> []" by simp_all
    from Node.IH(1) [OF n(4) ne] obtain mn where mn: "h (hd (inorder l)) = Some mn"
      "left mn = Null" "climb_dec h (Ptr (hd (inorder l))) (parent mn) = climb_dec h (left n) (Ptr a)"
      by blast
    have "climb_dec h (left n) (Ptr a) = climb_dec h (Ptr a) par"
      using n by (subst climb_dec.simps) simp
    with mn n ne' show ?thesis by simp
  qed
qed

lemma dec_begin:
  assumes "tree_at (cells w) (root (objs w this)) Null t"
  shows "\<exists>it. begin_map this w = Some it \<and> iter_dec w it = Some (Inl Invalid_iterator)"
proof (cases t)
  case Leaf
  with assms show ?thesis by (simp add: begin_map_def iter_dec_def)
next
  case (Node l a r)
  then have ne: "t \<noteq> Leaf" by simp
  let ?m = "hd (inorder t)"
  from assms Node have r: "root (objs w this) \<noteq> Null" by auto
  have b: "begin_map this w = Some \<lparr>current = Ptr ?m, container = Some this\<rparr>"
    using r minimum_tree [OF assms ne] by (simp add: begin_map_def)
  from climb_dec_first [OF assms ne] obtain mn where mn: "cells w ?m = Some mn" "left mn = Null"
    "climb_dec (cells w) (Ptr ?m) (parent mn) = climb_dec (cells w) (root (objs w this)) Null"
    by blast
  have "climb_dec (cells w) (root (objs w this)) Null = Some Null"
    by (subst climb_dec.simps) simp
  with mn have "iter_dec w \<lparr>current = Ptr ?m, container = Some this\<rparr> = Some (Inl Invalid_iterator)"
    by (simp add: iter_dec_def)
  with b show ?thesis by simp
qed

section \<open>The successor of a node\<close>

lemma keys_ascending_distinct: "keys_ascending h t \<Longrightarrow> distinct (inorder t)"
  unfolding keys_ascending_def
  by (metis distinct_map strict_sorted_iff)

lemma tree_at_root_mem: "tree_at h (Ptr b) par t \<Longrightarrow> b \<in> set (inorder t)"
  by (cases t) auto


lemma length_inorder_0 [simp]: "length (inorder t) = 0 \<longleftrightarrow> t = Leaf"
  by (cases t) auto

lemma inorder_Nil [simp]: "inorder t = [] \<longleftrightarrow> t = Leaf"
  by (cases t) auto







section \<open>Destroying and copying a tree\<close>

lemma tree_at_frame:
  "tree_at h p par t \<Longrightarrow> (\<And>a. a \<in> set (inorder t) \<Longrightarrow> h' a = h a) \<Longrightarrow> tree_at h' p par t"
  by (induction t arbitrary: p par) (auto split: option.splits)

lemma same_entries_frame:
  "same_entries h t h1 t' \<Longrightarrow> (\<And>a. a \<in> set (inorder t') \<Longrightarrow> h2 a = h1 a) \<Longrightarrow>
   same_entries h t h2 t'"
  by (induction h t h1 t' rule: same_entries.induct)
     (auto simp: key_of_def val_of_def red_def)

lemma same_entries_frame_left:
  "same_entries h t h1 t' \<Longrightarrow> (\<And>a. a \<in> set (inorder t) \<Longrightarrow> h0 a = h a) \<Longrightarrow>
   same_entries h0 t h1 t'"
  by (induction h t h1 t' rule: same_entries.induct)
     (auto simp: key_of_def val_of_def red_def)

lemma same_entries_refl: "same_entries h t h t"
  by (induction t) auto

lemma tree_at_bound:
  "tree_at h p par t \<Longrightarrow> (\<And>a. h a \<noteq> None \<Longrightarrow> a < n) \<Longrightarrow> a \<in> set (inorder t) \<Longrightarrow> a < n"
  using tree_at_live by fastforce

lemma destroy_tree:
  "tree_at (heap s) p par t \<Longrightarrow> distinct (inorder t) \<Longrightarrow>
   destroy p s = Some (s\<lparr>heap := (\<lambda>a. if a \<in> set (inorder t) then None else heap s a)\<rparr>)"
proof (induction t arbitrary: p par s)
  case Leaf
  then show ?case by (subst destroy.simps) simp
next
  case (Node l a r)
  from Node.prems(1) obtain n where n: "p = Ptr a" "heap s a = Some n" "parent n = par"
    "tree_at (heap s) (left n) (Ptr a) l" "tree_at (heap s) (right n) (Ptr a) r"
    by (rule tree_at_NodeE)
  from Node.prems(2) have d: "distinct (inorder l)" "distinct (inorder r)"
    "set (inorder l) \<inter> set (inorder r) = {}" "a \<notin> set (inorder l)" "a \<notin> set (inorder r)"
    by auto
  let ?s1 = "s\<lparr>heap := (\<lambda>b. if b \<in> set (inorder l) then None else heap s b)\<rparr>"
  have 1: "destroy (left n) s = Some ?s1"
    using Node.IH(1) [OF n(4) d(1)] .
  have t2: "tree_at (heap ?s1) (right n) (Ptr a) r"
    by (rule tree_at_frame [OF n(5)]) (use d(3) in auto)
  let ?s2 = "?s1\<lparr>heap := (\<lambda>b. if b \<in> set (inorder r) then None else heap ?s1 b)\<rparr>"
  have 2: "destroy (right n) ?s1 = Some ?s2"
    using Node.IH(2) [OF t2 d(2)] .
  have 3: "delete_cell (Ptr a) ?s2 = Some (?s2\<lparr>heap := (heap ?s2)(a := None)\<rparr>)"
    using n(2) d by (simp add: delete_cell_def)
  have "destroy p s = Some (?s2\<lparr>heap := (heap ?s2)(a := None)\<rparr>)"
    using n(1,2) d 1 2 3 by (subst destroy.simps) (simp add: node_at_def)
  moreover have "(heap ?s2)(a := None)
     = (\<lambda>b. if b \<in> set (inorder (Node l a r)) then None else heap s b)"
    by (rule ext) simp
  ultimately show ?case by simp
qed

lemma copy_tree:
  "tree_at (heap s) p par t \<Longrightarrow> (\<And>a. heap s a \<noteq> None \<Longrightarrow> a < nxt s) \<Longrightarrow>
   \<exists>p' h' n' t'. copy p q s = Some (p', s\<lparr>heap := h', nxt := n'\<rparr>) \<and>
      tree_at h' p' q t' \<and> same_entries (heap s) t h' t' \<and>
      set (inorder t') = {nxt s ..< n'} \<and> distinct (inorder t') \<and> nxt s \<le> n' \<and>
      (\<forall>a < nxt s. h' a = heap s a) \<and> (\<forall>a. h' a \<noteq> None \<longrightarrow> a < n')"
proof (induction t arbitrary: p par q s)
  case Leaf
  have "copy Null q s = Some (Null, s\<lparr>heap := heap s, nxt := nxt s\<rparr>)"
    by (subst copy.simps) simp
  with Leaf show ?case
    by (intro exI [of _ Null] exI [of _ "heap s"] exI [of _ "nxt s"] exI [of _ Leaf]) auto
next
  case (Node l a r)
  from Node.prems(1) obtain hn where n: "p = Ptr a" "heap s a = Some hn" "parent hn = par"
    "tree_at (heap s) (left hn) (Ptr a) l" "tree_at (heap s) (right hn) (Ptr a) r"
    by (rule tree_at_NodeE)
  define z where "z = nxt s"
  have az: "a < z" using n(2) Node.prems(2) by (simp add: z_def)
  have lz: "b < z" if "b \<in> set (inorder l)" for b
    using tree_at_live [OF n(4) that] Node.prems(2) by (auto simp: z_def)
  have rz: "b < z" if "b \<in> set (inorder r)" for b
    using tree_at_live [OF n(5) that] Node.prems(2) by (auto simp: z_def)
  define N0 where "N0 = \<lparr>key = key hn, val = val hn, left = Null, right = Null, parent = q, color = True\<rparr>"
  define s1 where "s1 = s\<lparr>heap := (heap s)(z \<mapsto> N0), nxt := Suc z\<rparr>"
  define s2 where "s2 = s1\<lparr>heap := (heap s1)(z \<mapsto> N0\<lparr>color := color hn\<rparr>)\<rparr>"
  have e1: "new_Node (key hn, val hn) q s = (Ptr z, s1)"
    by (simp add: new_Node_def s1_def N0_def z_def)
  have e2: "node_at s1 (Ptr a) = Some hn"
    using az n(2) by (simp add: node_at_def s1_def)
  have e3: "set_color (Ptr z) (color hn) s1 = Some s2"
    by (simp add: set_color_def upd_def s1_def s2_def)
  have e4: "node_at s2 (Ptr a) = Some hn"
    using az n(2) by (simp add: node_at_def s1_def s2_def)
  have s2: "nxt s2 = Suc z" "heap s2 z = Some (N0\<lparr>color := color hn\<rparr>)"
    "\<And>b. b \<noteq> z \<Longrightarrow> heap s2 b = heap s b"
    by (simp_all add: s2_def s1_def)
  have s2o: "heap s2 b = heap s b" if "b < z" for b
    using s2(3) [of b] that by simp
  have t2: "tree_at (heap s2) (left hn) (Ptr a) l"
    by (rule tree_at_frame [OF n(4)]) (use lz s2o in simp)
  have a2: "heap s2 b \<noteq> None \<Longrightarrow> b < nxt s2" for b
    using Node.prems(2) [of b] s2(3) [of b] by (cases "b = z") (auto simp: s2(1) z_def)
  from Node.IH(1) [OF t2 a2, of "Ptr z"] obtain pl h3 n3 tl where
    l: "copy (left hn) (Ptr z) s2 = Some (pl, s2\<lparr>heap := h3, nxt := n3\<rparr>)"
      "tree_at h3 pl (Ptr z) tl" "same_entries (heap s2) l h3 tl"
      "set (inorder tl) = {Suc z ..< n3}" "distinct (inorder tl)" "Suc z \<le> n3"
      "\<forall>b < Suc z. h3 b = heap s2 b" "\<forall>b. h3 b \<noteq> None \<longrightarrow> b < n3"
    unfolding s2(1) by blast
  define s3 where "s3 = s2\<lparr>heap := h3, nxt := n3\<rparr>"
  define s4 where "s4 = s3\<lparr>heap := h3(z \<mapsto> N0\<lparr>color := color hn, left := pl\<rparr>)\<rparr>"
  have h3z: "h3 z = Some (N0\<lparr>color := color hn\<rparr>)" using l(7) s2(2) by simp
  have h3o: "h3 b = heap s b" if "b < z" for b
    using l(7) s2(3) that by simp
  have e5: "set_left (Ptr z) pl s3 = Some s4"
    using h3z by (simp add: set_left_def upd_def s3_def s4_def)
  have s4: "nxt s4 = n3" "heap s4 z = Some (N0\<lparr>color := color hn, left := pl\<rparr>)"
    "\<And>b. b \<noteq> z \<Longrightarrow> heap s4 b = h3 b"
    by (simp_all add: s4_def s3_def)
  have e6: "node_at s4 (Ptr a) = Some hn"
    using az n(2) h3o s4(3) by (simp add: node_at_def)
  have s4o: "heap s4 b = heap s b" if "b < z" for b
    using s4(3) [of b] h3o that by simp
  have t4: "tree_at (heap s4) (right hn) (Ptr a) r"
    by (rule tree_at_frame [OF n(5)]) (use rz s4o in simp)
  have a4: "heap s4 b \<noteq> None \<Longrightarrow> b < nxt s4" for b
    using l(8) l(6) s4(3) [of b] by (cases "b = z") (auto simp: s4(1))
  from Node.IH(2) [OF t4 a4, of "Ptr z"] obtain pr h5 n5 tr where
    r: "copy (right hn) (Ptr z) s4 = Some (pr, s4\<lparr>heap := h5, nxt := n5\<rparr>)"
      "tree_at h5 pr (Ptr z) tr" "same_entries (heap s4) r h5 tr"
      "set (inorder tr) = {n3 ..< n5}" "distinct (inorder tr)" "n3 \<le> n5"
      "\<forall>b < n3. h5 b = heap s4 b" "\<forall>b. h5 b \<noteq> None \<longrightarrow> b < n5"
    unfolding s4(1) by blast
  define s5 where "s5 = s4\<lparr>heap := h5, nxt := n5\<rparr>"
  define h6 where "h6 = h5(z \<mapsto> N0\<lparr>color := color hn, left := pl, right := pr\<rparr>)"
  define s6 where "s6 = s5\<lparr>heap := h6\<rparr>"
  have h5z: "h5 z = Some (N0\<lparr>color := color hn, left := pl\<rparr>)"
    using r(7) l(6) s4(2) by simp
  have h5o: "h5 b = heap s4 b" if "b < n3" for b
    using r(7) that by simp
  have e7: "set_right (Ptr z) pr s5 = Some s6"
    using h5z by (simp add: set_right_def upd_def s5_def s6_def h6_def)
  have c: "copy p q s = Some (Ptr z, s6)"
    apply (subst copy.simps)
    using n(1,2) e1 e2 e3 e4 l(1) e5 e6 r(1) e7
    apply (simp add: node_at_def s3_def [symmetric] s5_def [symmetric])
    done
  have s6: "s6 = s\<lparr>heap := h6, nxt := n5\<rparr>"
    by (simp add: s6_def s5_def s4_def s3_def s2_def s1_def)
  have h6l: "h6 b = h3 b" if "b \<in> set (inorder tl)" for b
  proof -
    from that l(4) have "Suc z \<le> b" "b < n3" by auto
    then show ?thesis using h5o [of b] s4(3) [of b] by (simp add: h6_def)
  qed
  have h6r: "h6 b = h5 b" if "b \<in> set (inorder tr)" for b
  proof -
    from that r(4) l(6) have "z < b" by auto
    then show ?thesis by (simp add: h6_def)
  qed
  have tl6: "tree_at h6 pl (Ptr z) tl"
    by (rule tree_at_frame [OF l(2)]) (use h6l in simp)
  have tr6: "tree_at h6 pr (Ptr z) tr"
    by (rule tree_at_frame [OF r(2)]) (use h6r in simp)
  have t6: "tree_at h6 (Ptr z) q (Node tl z tr)"
    using tl6 tr6 by (simp add: h6_def N0_def)
  have el: "same_entries (heap s) l h6 tl"
    by (rule same_entries_frame_left [OF same_entries_frame [OF l(3)]])
       (use h6l lz s2o in simp_all)
  have er: "same_entries (heap s) r h6 tr"
    by (rule same_entries_frame_left [OF same_entries_frame [OF r(3)]])
       (use h6r rz s4o in simp_all)
  have e6: "same_entries (heap s) (Node l a r) h6 (Node tl z tr)"
    using el er n(2) by (simp add: key_of_def val_of_def red_def h6_def N0_def)
  have set6: "set (inorder (Node tl z tr)) = {z ..< n5}"
    using l(4,6) r(4,6) by auto
  have d6: "distinct (inorder (Node tl z tr))"
    using l(4,5,6) r(4,5,6) by auto
  have old6: "\<forall>b < z. h6 b = heap s b"
    using l(6) s4o h5o by (auto simp: h6_def)
  have al6: "\<forall>b. h6 b \<noteq> None \<longrightarrow> b < n5"
    using r(8) l(6) r(6) by (auto simp: h6_def)
  from c t6 e6 set6 d6 old6 al6 l(6) r(6) show ?case
    unfolding s6 z_def [symmetric]
    by (intro exI [of _ "Ptr z"] exI [of _ h6] exI [of _ n5] exI [of _ "Node tl z tr"])
       (simp del: tree_at.simps same_entries.simps inorder.simps)
qed

lemma cells_put [simp]: "cells (put this s w) = heap s"
  and brk_put [simp]: "brk (put this s w) = nxt s"
  and objs_put_same [simp]: "root (objs (put this s w) this) = root s"
    "map_size (objs (put this s w) this) = map_size s"
  and objs_put_other [simp]: "other \<noteq> this \<Longrightarrow> objs (put this s w) other = objs w other"
  by (simp_all add: put_def)

lemma copy_into:
  assumes src: "tree_at (heap s) p Null ts"
    and alloc: "\<And>a. heap s a \<noteq> None \<Longrightarrow> a < nxt s"
  shows "\<exists>r s' t'. copy p Null s = Some (r, s') \<and> root s' = root s \<and> map_size s' = map_size s \<and>
      end_node s' = end_node s \<and>
      tree_at (heap s') r Null t' \<and> same_entries (heap s) ts (heap s') t' \<and>
      set (inorder t') \<inter> set (inorder ts) = {} \<and>
      tree_at (heap s') p Null ts \<and> same_entries (heap s) ts (heap s') ts \<and>
      (\<forall>a < nxt s. heap s' a = heap s a)"
proof -
  from copy_tree [OF src alloc, of Null] obtain p' h' n' t' where
    c: "copy p Null s = Some (p', s\<lparr>heap := h', nxt := n'\<rparr>)"
      "tree_at h' p' Null t'" "same_entries (heap s) ts h' t'"
      "set (inorder t') = {nxt s ..< n'}" "\<forall>a < nxt s. h' a = heap s a"
    by blast
  have old: "a < nxt s" if "a \<in> set (inorder ts)" for a
    using tree_at_live [OF src that] alloc by auto
  have 1: "set (inorder t') \<inter> set (inorder ts) = {}"
    using c(4) old by fastforce
  have 2: "tree_at h' p Null ts"
    by (rule tree_at_frame [OF src]) (use old c(5) in simp)
  have 3: "same_entries (heap s) ts h' ts"
    by (rule same_entries_frame [OF same_entries_refl]) (use old c(5) in simp)
  from c(1,2,3,5) 1 2 3 show ?thesis
    by (intro exI [of _ p'] exI [of _ "s\<lparr>heap := h', nxt := n'\<rparr>"] exI [of _ t']) simp
qed

lemma two_maps_reached:
  "(case run 0 1 [Insert (2::nat) (20::nat), Insert 1 10, Insert 3 30] empty_world of None \<Rightarrow> False
    | Some w1 \<Rightarrow> (case run 0 0 [Insert 7 70] w1 of None \<Rightarrow> False
       | Some w \<Rightarrow> map (cells w) [0, 1, 2, 3, 4] = map (cells two_maps) [0, 1, 2, 3, 4] \<and> brk w = brk two_maps \<and>
           map (objs w) [0, 1] = map (objs two_maps) [0, 1]))"
  by code_simp

section \<open>Rotations, recolouring and the insert fix-up\<close>

lemma inorder_plug: "inorder (plug c t) = before c @ inorder t @ after c"
  by (induction c t rule: plug.induct) auto

lemma plug_append: "plug (c1 @ c2) t = plug c2 (plug c1 t)"
  by (induction c1 t rule: plug.induct) auto

lemma tree_at_plug:
  "tree_at h q par (plug c t) \<longleftrightarrow> (\<exists>p. tree_at h p (top c par) t \<and> path_at h p c q par)"
proof (induction c t rule: plug.induct)
  case (1 t)
  then show ?case by auto
next
  case (2 a r c t)
  then show ?case by (auto split: option.splits)
next
  case (3 l a c t)
  then show ?case by (auto split: option.splits)
qed

lemma split_shape:
  "a \<in> set (inorder t) \<Longrightarrow> \<exists>c l r. t = plug c (Node l a r)"
proof (induction t)
  case Leaf
  then show ?case by simp
next
  case (Node l x r)
  then consider "a \<in> set (inorder l)" | "a = x" | "a \<in> set (inorder r)" by auto
  then show ?case
  proof cases
    case 1
    with Node.IH(1) obtain c l' r' where "l = plug c (Node l' a r')" by blast
    then have "Node l x r = plug (c @ [LeftOf x r]) (Node l' a r')"
      by (simp add: plug_append)
    then show ?thesis by blast
  next
    case 2
    then have "Node l x r = plug [] (Node l a r)" by simp
    then show ?thesis by blast
  next
    case 3
    with Node.IH(2) obtain c l' r' where "r = plug c (Node l' a r')" by blast
    then have "Node l x r = plug (c @ [RightOf l x]) (Node l' a r')"
      by (simp add: plug_append)
    then show ?thesis by blast
  qed
qed

lemma path_at_frame:
  "path_at h p c q par \<Longrightarrow> (\<And>a. a \<in> set (before c) \<union> set (after c) \<Longrightarrow> h' a = h a) \<Longrightarrow>
   path_at h' p c q par"
proof (induction h p c q par rule: path_at.induct)
  case (1 h p q par)
  then show ?case by simp
next
  case (2 h p a r c q par)
  from "2.prems"(1) obtain n where n: "h a = Some n" "left n = p" "parent n = top c par"
    "tree_at h (right n) (Ptr a) r" "path_at h (Ptr a) c q par"
    by (auto split: option.splits)
  have "h' a = Some n" using "2.prems"(2) [of a] n by simp
  moreover have "tree_at h' (right n) (Ptr a) r"
    by (rule tree_at_frame [OF n(4)]) (use "2.prems"(2) in auto)
  moreover have "path_at h' (Ptr a) c q par"
    by (rule "2.IH" [OF n(1) n(5)]) (use "2.prems"(2) in auto)
  ultimately show ?case using n by simp
next
  case (3 h p l a c q par)
  from "3.prems"(1) obtain n where n: "h a = Some n" "right n = p" "parent n = top c par"
    "tree_at h (left n) (Ptr a) l" "path_at h (Ptr a) c q par"
    by (auto split: option.splits)
  have "h' a = Some n" using "3.prems"(2) [of a] n by simp
  moreover have "tree_at h' (left n) (Ptr a) l"
    by (rule tree_at_frame [OF n(4)]) (use "3.prems"(2) in auto)
  moreover have "path_at h' (Ptr a) c q par"
    by (rule "3.IH" [OF n(1) n(5)]) (use "3.prems"(2) in auto)
  ultimately show ?case using n by simp
qed

lemma tree_at_links:
  "tree_at h p par t \<Longrightarrow>
   (\<And>a. a \<in> set (inorder t) \<Longrightarrow> map_option links (h' a) = map_option links (h a)) \<Longrightarrow>
   tree_at h' p par t"
proof (induction t arbitrary: p par)
  case Leaf
  then show ?case by simp
next
  case (Node l a r)
  from Node.prems(1) obtain n where n: "p = Ptr a" "h a = Some n" "parent n = par"
    "tree_at h (left n) (Ptr a) l" "tree_at h (right n) (Ptr a) r"
    by (rule tree_at_NodeE)
  from Node.prems(2) [of a] n(2) obtain n' where n': "h' a = Some n'" "links n' = links n"
    by auto
  have "tree_at h' (left n) (Ptr a) l"
    by (rule Node.IH(1) [OF n(4)]) (use Node.prems(2) in auto)
  moreover have "tree_at h' (right n) (Ptr a) r"
    by (rule Node.IH(2) [OF n(5)]) (use Node.prems(2) in auto)
  ultimately show ?case using n n' by (simp add: links_def)
qed

lemma path_at_links:
  "path_at h p c q par \<Longrightarrow>
   (\<And>a. a \<in> set (before c) \<union> set (after c) \<Longrightarrow> map_option links (h' a) = map_option links (h a)) \<Longrightarrow>
   path_at h' p c q par"
proof (induction h p c q par rule: path_at.induct)
  case (1 h p q par)
  then show ?case by simp
next
  case (2 h p a r c q par)
  from "2.prems"(1) obtain n where n: "h a = Some n" "left n = p" "parent n = top c par"
    "tree_at h (right n) (Ptr a) r" "path_at h (Ptr a) c q par"
    by (auto split: option.splits)
  from "2.prems"(2) [of a] n(1) obtain n' where n': "h' a = Some n'" "links n' = links n"
    by auto
  have "tree_at h' (right n) (Ptr a) r"
    by (rule tree_at_links [OF n(4)]) (use "2.prems"(2) in auto)
  moreover have "path_at h' (Ptr a) c q par"
    by (rule "2.IH" [OF n(1) n(5)]) (use "2.prems"(2) in auto)
  ultimately show ?case using n n' by (simp add: links_def)
next
  case (3 h p l a c q par)
  from "3.prems"(1) obtain n where n: "h a = Some n" "right n = p" "parent n = top c par"
    "tree_at h (left n) (Ptr a) l" "path_at h (Ptr a) c q par"
    by (auto split: option.splits)
  from "3.prems"(2) [of a] n(1) obtain n' where n': "h' a = Some n'" "links n' = links n"
    by auto
  have "tree_at h' (left n) (Ptr a) l"
    by (rule tree_at_links [OF n(4)]) (use "3.prems"(2) in auto)
  moreover have "path_at h' (Ptr a) c q par"
    by (rule "3.IH" [OF n(1) n(5)]) (use "3.prems"(2) in auto)
  ultimately show ?case using n n' by (simp add: links_def)
qed

lemma links_recolor: "map_option links (recolor h a c b) = map_option links (h b)"
  by (auto simp: recolor_def links_def split: option.splits)

lemma tree_at_recolor [simp]: "tree_at (recolor h a c) p par t = tree_at h p par t"
  using tree_at_links [of h p par t "recolor h a c"] tree_at_links [of "recolor h a c" p par t h]
  by (auto simp: links_recolor)

lemma path_at_recolor [simp]: "path_at (recolor h a c) p cx q par = path_at h p cx q par"
  using path_at_links [of h p cx q par "recolor h a c"] path_at_links [of "recolor h a c" p cx q par h]
  by (auto simp: links_recolor)

lemma recolor_apply:
  "recolor h a c b = (if b = a then map_option (\<lambda>n. n\<lparr>color := c\<rparr>) (h a) else h b)"
  by (auto simp: recolor_def split: option.splits)

lemma key_of_recolor [simp]: "key_of (recolor h a c) b = key_of h b"
  and val_of_recolor [simp]: "val_of (recolor h a c) b = val_of h b"
  by (auto simp: recolor_def key_of_def val_of_def split: option.splits)

lemma red_recolor: "red (recolor h a c) b = (if b = a \<and> h a \<noteq> None then c else red h b)"
  by (auto simp: recolor_def red_def split: option.splits)

lemma set_color_live:
  "heap s a = Some n \<Longrightarrow> set_color (Ptr a) c s = Some (s\<lparr>heap := recolor (heap s) a c\<rparr>)"
  by (simp add: set_color_def upd_def recolor_def)

lemma leftRotate_explicit:
  assumes x: "heap s x = Some xn" "right xn = Ptr y" "heap s y = Some yn" "x \<noteq> y"
    and b: "left yn = Null \<or> (\<exists>b bn. left yn = Ptr b \<and> heap s b = Some bn \<and> b \<noteq> x \<and> b \<noteq> y)"
    and p: "parent xn = Null \<or>
            (\<exists>p pn. parent xn = Ptr p \<and> heap s p = Some pn \<and> p \<noteq> x \<and> p \<noteq> y \<and> left yn \<noteq> Ptr p)"
  shows "\<exists>s'. leftRotate (Ptr x) s = Some s' \<and>
      root s' = (if parent xn = Null then Ptr y else root s) \<and>
      heap s' x = Some (xn\<lparr>right := left yn, parent := Ptr y\<rparr>) \<and>
      heap s' y = Some (yn\<lparr>parent := parent xn, left := Ptr x\<rparr>) \<and>
      (\<forall>b bn. left yn = Ptr b \<longrightarrow> heap s b = Some bn \<longrightarrow> heap s' b = Some (bn\<lparr>parent := Ptr x\<rparr>)) \<and>
      (\<forall>p pn. parent xn = Ptr p \<longrightarrow> heap s p = Some pn \<longrightarrow>
          heap s' p = Some (relinkL (Ptr x) (Ptr y) pn)) \<and>
      (\<forall>a. a \<noteq> x \<longrightarrow> a \<noteq> y \<longrightarrow> Ptr a \<noteq> left yn \<longrightarrow> Ptr a \<noteq> parent xn \<longrightarrow> heap s' a = heap s a) \<and>
      nxt s' = nxt s \<and> map_size s' = map_size s \<and> end_node s' = end_node s"
  using x b p
  by (auto simp: leftRotate_def node_at_def set_right_def set_left_def set_parent_def upd_def
      relinkL_def Let_def)

lemma tree_at_reparent:
  assumes "tree_at h q par t" "distinct (inorder t)"
    and "\<And>a. a \<in> set (inorder t) \<Longrightarrow>
           h' a = (if Ptr a = q then map_option (\<lambda>n. n\<lparr>parent := par'\<rparr>) (h a) else h a)"
  shows "tree_at h' q par' t"
proof (cases t)
  case Leaf
  with assms(1) show ?thesis by simp
next
  case (Node l a r)
  from assms(1) [unfolded Node] obtain n where n: "q = Ptr a" "h a = Some n" "parent n = par"
    "tree_at h (left n) (Ptr a) l" "tree_at h (right n) (Ptr a) r"
    by (rule tree_at_NodeE)
  from assms(2) Node have d: "a \<notin> set (inorder l)" "a \<notin> set (inorder r)" by auto
  have "h' a = Some (n\<lparr>parent := par'\<rparr>)"
    using assms(3) [of a] n Node by simp
  moreover have "tree_at h' (left n) (Ptr a) l"
    by (rule tree_at_frame [OF n(4)]) (use assms(3) d n(1) Node in auto)
  moreover have "tree_at h' (right n) (Ptr a) r"
    by (rule tree_at_frame [OF n(5)]) (use assms(3) d n(1) Node in auto)
  ultimately show ?thesis using n Node by simp
qed

lemma path_at_relinkL:
  assumes "path_at h (Ptr x) c r par" "distinct (before c @ after c)"
    "x \<notin> set (before c) \<union> set (after c)"
    and "\<And>a. a \<in> set (before c) \<union> set (after c) \<Longrightarrow>
           h' a = (if Ptr a = top c par then map_option (relinkL (Ptr x) q') (h a) else h a)"
  shows "path_at h' q' c (if c = [] then q' else r) par"
proof (cases c)
  case Nil
  then show ?thesis by simp
next
  case (Cons f c')
  show ?thesis
  proof (cases f)
    case (LeftOf a rt)
    from assms(1) [unfolded Cons LeftOf] obtain n where n: "h a = Some n" "left n = Ptr x"
      "parent n = top c' par" "tree_at h (right n) (Ptr a) rt" "path_at h (Ptr a) c' r par"
      by (auto split: option.splits)
    from assms(2) Cons LeftOf have d: "a \<notin> set (inorder rt)" "a \<notin> set (before c') \<union> set (after c')"
      by auto
    have "h' a = Some (n\<lparr>left := q'\<rparr>)"
      using assms(4) [of a] n Cons LeftOf by (simp add: relinkL_def)
    moreover have "tree_at h' (right n) (Ptr a) rt"
      by (rule tree_at_frame [OF n(4)]) (use assms(4) d Cons LeftOf in auto)
    moreover have "path_at h' (Ptr a) c' r par"
      by (rule path_at_frame [OF n(5)]) (use assms(4) d Cons LeftOf in auto)
    ultimately show ?thesis using n Cons LeftOf by simp
  next
    case (RightOf lt a)
    from assms(1) [unfolded Cons RightOf] obtain n where n: "h a = Some n" "right n = Ptr x"
      "parent n = top c' par" "tree_at h (left n) (Ptr a) lt" "path_at h (Ptr a) c' r par"
      by (auto split: option.splits)
    from assms(2) Cons RightOf have d: "a \<notin> set (inorder lt)" "a \<notin> set (before c') \<union> set (after c')"
      by auto
    have "left n \<noteq> Ptr x"
    proof
      assume "left n = Ptr x"
      with n(4) have "x \<in> set (inorder lt)" by (simp add: tree_at_root_mem)
      with assms(3) Cons RightOf show False by simp
    qed
    then have "h' a = Some (n\<lparr>right := q'\<rparr>)"
      using assms(4) [of a] n Cons RightOf by (auto simp: relinkL_def)
    moreover have "tree_at h' (left n) (Ptr a) lt"
      by (rule tree_at_frame [OF n(4)]) (use assms(4) d Cons RightOf in auto)
    moreover have "path_at h' (Ptr a) c' r par"
      by (rule path_at_frame [OF n(5)]) (use assms(4) d Cons RightOf in auto)
    ultimately show ?thesis using n Cons RightOf by simp
  qed
qed

lemma path_at_relinkR:
  assumes "path_at h (Ptr x) c r par" "distinct (before c @ after c)"
    "x \<notin> set (before c) \<union> set (after c)"
    and "\<And>a. a \<in> set (before c) \<union> set (after c) \<Longrightarrow>
           h' a = (if Ptr a = top c par then map_option (relinkR (Ptr x) q') (h a) else h a)"
  shows "path_at h' q' c (if c = [] then q' else r) par"
proof (cases c)
  case Nil
  then show ?thesis by simp
next
  case (Cons f c')
  show ?thesis
  proof (cases f)
    case (RightOf lt a)
    from assms(1) [unfolded Cons RightOf] obtain n where n: "h a = Some n" "right n = Ptr x"
      "parent n = top c' par" "tree_at h (left n) (Ptr a) lt" "path_at h (Ptr a) c' r par"
      by (auto split: option.splits)
    from assms(2) Cons RightOf have d: "a \<notin> set (inorder lt)" "a \<notin> set (before c') \<union> set (after c')"
      by auto
    have "h' a = Some (n\<lparr>right := q'\<rparr>)"
      using assms(4) [of a] n Cons RightOf by (simp add: relinkR_def)
    moreover have "tree_at h' (left n) (Ptr a) lt"
      by (rule tree_at_frame [OF n(4)]) (use assms(4) d Cons RightOf in auto)
    moreover have "path_at h' (Ptr a) c' r par"
      by (rule path_at_frame [OF n(5)]) (use assms(4) d Cons RightOf in auto)
    ultimately show ?thesis using n Cons RightOf by simp
  next
    case (LeftOf a rt)
    from assms(1) [unfolded Cons LeftOf] obtain n where n: "h a = Some n" "left n = Ptr x"
      "parent n = top c' par" "tree_at h (right n) (Ptr a) rt" "path_at h (Ptr a) c' r par"
      by (auto split: option.splits)
    from assms(2) Cons LeftOf have d: "a \<notin> set (inorder rt)" "a \<notin> set (before c') \<union> set (after c')"
      by auto
    have "right n \<noteq> Ptr x"
    proof
      assume "right n = Ptr x"
      with n(4) have "x \<in> set (inorder rt)" by (simp add: tree_at_root_mem)
      with assms(3) Cons LeftOf show False by simp
    qed
    then have "h' a = Some (n\<lparr>left := q'\<rparr>)"
      using assms(4) [of a] n Cons LeftOf by (auto simp: relinkR_def)
    moreover have "tree_at h' (right n) (Ptr a) rt"
      by (rule tree_at_frame [OF n(4)]) (use assms(4) d Cons LeftOf in auto)
    moreover have "path_at h' (Ptr a) c' r par"
      by (rule path_at_frame [OF n(5)]) (use assms(4) d Cons LeftOf in auto)
    ultimately show ?thesis using n Cons LeftOf by simp
  qed
qed

lemma path_at_top:
  "path_at h p c r par \<Longrightarrow> c \<noteq> [] \<Longrightarrow>
   \<exists>a n. top c par = Ptr a \<and> h a = Some n \<and> a \<in> set (before c) \<union> set (after c)"
  by (cases "(c, par)" rule: top.cases) (auto split: option.splits)

lemma leftRotate_ctx:
  assumes t: "tree_at (heap s) (Ptr x) (top c Null) (Node ta x (Node tb y tc))"
    and c: "path_at (heap s) (Ptr x) c (root s) Null"
    and d: "distinct (inorder (plug c (Node ta x (Node tb y tc))))"
  shows "\<exists>s'. leftRotate (Ptr x) s = Some s' \<and>
      tree_at (heap s') (Ptr y) (top c Null) (Node (Node ta x tb) y tc) \<and>
      path_at (heap s') (Ptr y) c (root s') Null \<and>
      same_data (heap s) (heap s') \<and>
      nxt s' = nxt s \<and> map_size s' = map_size s \<and> end_node s' = end_node s"
proof -
  from t obtain xn where xn: "heap s x = Some xn" "parent xn = top c Null"
    "tree_at (heap s) (left xn) (Ptr x) ta" "tree_at (heap s) (right xn) (Ptr x) (Node tb y tc)"
    by (auto split: option.splits)
  from xn(4) obtain yn where yn: "right xn = Ptr y" "heap s y = Some yn" "parent yn = Ptr x"
    "tree_at (heap s) (left yn) (Ptr y) tb" "tree_at (heap s) (right yn) (Ptr y) tc"
    by (auto split: option.splits)
  from d have d': "distinct (before c @ after c)" "x \<noteq> y"
    "x \<notin> set (inorder ta)" "x \<notin> set (inorder tb)" "x \<notin> set (inorder tc)"
    "y \<notin> set (inorder ta)" "y \<notin> set (inorder tb)" "y \<notin> set (inorder tc)"
    "x \<notin> set (before c) \<union> set (after c)" "y \<notin> set (before c) \<union> set (after c)"
    "set (inorder ta) \<inter> set (inorder tb) = {}" "set (inorder ta) \<inter> set (inorder tc) = {}"
    "set (inorder tb) \<inter> set (inorder tc) = {}"
    "set (inorder ta) \<inter> (set (before c) \<union> set (after c)) = {}"
    "set (inorder tb) \<inter> (set (before c) \<union> set (after c)) = {}"
    "set (inorder tc) \<inter> (set (before c) \<union> set (after c)) = {}"
    "distinct (inorder ta)" "distinct (inorder tb)" "distinct (inorder tc)"
    by (auto simp: inorder_plug)
  have b: "left yn = Null \<or> (\<exists>b bn. left yn = Ptr b \<and> heap s b = Some bn \<and> b \<noteq> x \<and> b \<noteq> y)"
  proof (cases tb)
    case Leaf
    with yn(4) show ?thesis by simp
  next
    case (Node l b r)
    with yn(4) d'(4,7) show ?thesis by (auto split: option.splits)
  qed
  have bmem: "b \<in> set (inorder tb)" if "Ptr b = left yn" for b
    using yn(4) that [symmetric] by (simp add: tree_at_root_mem)
  have p: "parent xn = Null \<or>
            (\<exists>p pn. parent xn = Ptr p \<and> heap s p = Some pn \<and> p \<noteq> x \<and> p \<noteq> y \<and> left yn \<noteq> Ptr p)"
  proof (cases c)
    case Nil
    with xn(2) show ?thesis by simp
  next
    case (Cons f c')
    then have "c \<noteq> []" by simp
    from path_at_top [OF c this] obtain p pn where
      "top c Null = Ptr p" "heap s p = Some pn" "p \<in> set (before c) \<union> set (after c)"
      by blast
    with xn(2) d'(9,10,15) bmem show ?thesis by auto
  qed
  have pmem: "p \<in> set (before c) \<union> set (after c)" if "Ptr p = parent xn" for p
  proof (cases c)
    case Nil
    with xn(2) that show ?thesis by simp
  next
    case (Cons f c')
    then have "c \<noteq> []" by simp
    from path_at_top [OF c this] that xn(2) show ?thesis by auto
  qed
  from leftRotate_explicit [OF xn(1) yn(1) yn(2) d'(2) b p] obtain s' where
    s': "leftRotate (Ptr x) s = Some s'"
      "root s' = (if parent xn = Null then Ptr y else root s)"
      "heap s' x = Some (xn\<lparr>right := left yn, parent := Ptr y\<rparr>)"
      "heap s' y = Some (yn\<lparr>parent := parent xn, left := Ptr x\<rparr>)"
      "\<And>b bn. left yn = Ptr b \<Longrightarrow> heap s b = Some bn \<Longrightarrow> heap s' b = Some (bn\<lparr>parent := Ptr x\<rparr>)"
      "\<And>p pn. parent xn = Ptr p \<Longrightarrow> heap s p = Some pn \<Longrightarrow>
          heap s' p = Some (relinkL (Ptr x) (Ptr y) pn)"
      "\<And>a. a \<noteq> x \<Longrightarrow> a \<noteq> y \<Longrightarrow> Ptr a \<noteq> left yn \<Longrightarrow> Ptr a \<noteq> parent xn \<Longrightarrow> heap s' a = heap s a"
      "nxt s' = nxt s" "map_size s' = map_size s" "end_node s' = end_node s"
    by blast
  have fa: "heap s' a = heap s a" if "a \<in> set (inorder ta)" for a
    using that d'(3,6,11,14) bmem pmem by (intro s'(7)) auto
  have fc: "heap s' a = heap s a" if "a \<in> set (inorder tc)" for a
    using that d'(5,8,13,16) bmem pmem by (intro s'(7)) auto
  have fb: "heap s' a = (if Ptr a = left yn then map_option (\<lambda>n. n\<lparr>parent := Ptr x\<rparr>) (heap s a) else heap s a)"
    if "a \<in> set (inorder tb)" for a
  proof (cases "Ptr a = left yn")
    case True
    from tree_at_live [OF yn(4) that] obtain bn where "heap s a = Some bn" by blast
    with True s'(5) [of a bn] show ?thesis by simp
  next
    case False
    then have "heap s' a = heap s a"
      using that d'(4,7,15) pmem by (intro s'(7)) auto
    with False show ?thesis by simp
  qed
  have fp: "heap s' a = (if Ptr a = top c Null then map_option (relinkL (Ptr x) (Ptr y)) (heap s a) else heap s a)"
    if "a \<in> set (before c) \<union> set (after c)" for a
  proof (cases "Ptr a = top c Null")
    case True
    from p True xn(2) obtain pn where "heap s a = Some pn" by auto
    with True s'(6) [of a pn] xn(2) show ?thesis by simp
  next
    case False
    then have "heap s' a = heap s a"
      using that d'(9,10,15) bmem xn(2) by (intro s'(7)) auto
    with False show ?thesis by simp
  qed
  have 1: "tree_at (heap s') (left xn) (Ptr x) ta"
    by (rule tree_at_frame [OF xn(3)]) (rule fa)
  have 2: "tree_at (heap s') (left yn) (Ptr x) tb"
    by (rule tree_at_reparent [OF yn(4) d'(18)]) (rule fb)
  have 3: "tree_at (heap s') (right yn) (Ptr y) tc"
    by (rule tree_at_frame [OF yn(5)]) (rule fc)
  have T: "tree_at (heap s') (Ptr y) (top c Null) (Node (Node ta x tb) y tc)"
    using 1 2 3 s'(3,4) xn(2) by simp
  have "path_at (heap s') (Ptr y) c (if c = [] then Ptr y else root s) Null"
    by (rule path_at_relinkL [OF c d'(1) d'(9)]) (rule fp)
  moreover have "(if c = [] then Ptr y else root s) = root s'"
  proof (cases c)
    case Nil
    with xn(2) s'(2) show ?thesis by simp
  next
    case (Cons f c')
    then have "c \<noteq> []" by simp
    from path_at_top [OF c this] xn(2) s'(2) Cons show ?thesis by auto
  qed
  ultimately have P: "path_at (heap s') (Ptr y) c (root s') Null" by simp
  have D: "same_data (heap s) (heap s')"
    unfolding same_data_def
  proof
    fix a
    consider "a = x" | "a = y" | "a \<noteq> x" "a \<noteq> y" "Ptr a = left yn"
      | "a \<noteq> x" "a \<noteq> y" "Ptr a \<noteq> left yn" "Ptr a = parent xn"
      | "a \<noteq> x" "a \<noteq> y" "Ptr a \<noteq> left yn" "Ptr a \<noteq> parent xn"
      by blast
    then show "map_option data (heap s' a) = map_option data (heap s a)"
    proof cases
      case 1
      with s'(3) xn(1) show ?thesis by (simp add: data_def)
    next
      case 2
      with s'(4) yn(2) show ?thesis by (simp add: data_def)
    next
      case 3
      with b obtain bn where "heap s a = Some bn" by auto
      with 3 s'(5) [of a bn] show ?thesis by (simp add: data_def)
    next
      case 4
      with p obtain pn where "heap s a = Some pn" by auto
      with 4 s'(6) [of a pn] show ?thesis by (simp add: data_def relinkL_def)
    next
      case 5
      with s'(7) [of a] show ?thesis by simp
    qed
  qed
  from s'(1,8,9,10) T P D show ?thesis by blast
qed

lemma rightRotate_explicit:
  assumes x: "heap s x = Some xn" "left xn = Ptr y" "heap s y = Some yn" "x \<noteq> y"
    and b: "right yn = Null \<or> (\<exists>b bn. right yn = Ptr b \<and> heap s b = Some bn \<and> b \<noteq> x \<and> b \<noteq> y)"
    and p: "parent xn = Null \<or>
            (\<exists>p pn. parent xn = Ptr p \<and> heap s p = Some pn \<and> p \<noteq> x \<and> p \<noteq> y \<and> right yn \<noteq> Ptr p)"
  shows "\<exists>s'. rightRotate (Ptr x) s = Some s' \<and>
      root s' = (if parent xn = Null then Ptr y else root s) \<and>
      heap s' x = Some (xn\<lparr>left := right yn, parent := Ptr y\<rparr>) \<and>
      heap s' y = Some (yn\<lparr>parent := parent xn, right := Ptr x\<rparr>) \<and>
      (\<forall>b bn. right yn = Ptr b \<longrightarrow> heap s b = Some bn \<longrightarrow> heap s' b = Some (bn\<lparr>parent := Ptr x\<rparr>)) \<and>
      (\<forall>p pn. parent xn = Ptr p \<longrightarrow> heap s p = Some pn \<longrightarrow>
          heap s' p = Some (relinkR (Ptr x) (Ptr y) pn)) \<and>
      (\<forall>a. a \<noteq> x \<longrightarrow> a \<noteq> y \<longrightarrow> Ptr a \<noteq> right yn \<longrightarrow> Ptr a \<noteq> parent xn \<longrightarrow> heap s' a = heap s a) \<and>
      nxt s' = nxt s \<and> map_size s' = map_size s \<and> end_node s' = end_node s"
  using x b p
  by (auto simp: rightRotate_def node_at_def set_left_def set_right_def set_parent_def upd_def
      relinkR_def Let_def)

lemma rightRotate_ctx:
  assumes t: "tree_at (heap s) (Ptr x) (top c Null) (Node (Node ta y tb) x tc)"
    and c: "path_at (heap s) (Ptr x) c (root s) Null"
    and d: "distinct (inorder (plug c (Node (Node ta y tb) x tc)))"
  shows "\<exists>s'. rightRotate (Ptr x) s = Some s' \<and>
      tree_at (heap s') (Ptr y) (top c Null) (Node ta y (Node tb x tc)) \<and>
      path_at (heap s') (Ptr y) c (root s') Null \<and>
      same_data (heap s) (heap s') \<and>
      nxt s' = nxt s \<and> map_size s' = map_size s \<and> end_node s' = end_node s"
proof -
  from t obtain xn where xn: "heap s x = Some xn" "parent xn = top c Null"
    "tree_at (heap s) (right xn) (Ptr x) tc" "tree_at (heap s) (left xn) (Ptr x) (Node ta y tb)"
    by (auto split: option.splits)
  from xn(4) obtain yn where yn: "left xn = Ptr y" "heap s y = Some yn" "parent yn = Ptr x"
    "tree_at (heap s) (right yn) (Ptr y) tb" "tree_at (heap s) (left yn) (Ptr y) ta"
    by (auto split: option.splits)
  from d have d': "distinct (before c @ after c)" "x \<noteq> y"
    "x \<notin> set (inorder tc)" "x \<notin> set (inorder tb)" "x \<notin> set (inorder ta)"
    "y \<notin> set (inorder tc)" "y \<notin> set (inorder tb)" "y \<notin> set (inorder ta)"
    "x \<notin> set (before c) \<union> set (after c)" "y \<notin> set (before c) \<union> set (after c)"
    "set (inorder tc) \<inter> set (inorder tb) = {}" "set (inorder tc) \<inter> set (inorder ta) = {}"
    "set (inorder tb) \<inter> set (inorder ta) = {}"
    "set (inorder tc) \<inter> (set (before c) \<union> set (after c)) = {}"
    "set (inorder tb) \<inter> (set (before c) \<union> set (after c)) = {}"
    "set (inorder ta) \<inter> (set (before c) \<union> set (after c)) = {}"
    "distinct (inorder tc)" "distinct (inorder tb)" "distinct (inorder ta)"
    by (auto simp: inorder_plug)
  have b: "right yn = Null \<or> (\<exists>b bn. right yn = Ptr b \<and> heap s b = Some bn \<and> b \<noteq> x \<and> b \<noteq> y)"
  proof (cases tb)
    case Leaf
    with yn(4) show ?thesis by simp
  next
    case (Node l b r)
    with yn(4) d'(4,7) show ?thesis by (auto split: option.splits)
  qed
  have bmem: "b \<in> set (inorder tb)" if "Ptr b = right yn" for b
    using yn(4) that [symmetric] by (simp add: tree_at_root_mem)
  have p: "parent xn = Null \<or>
            (\<exists>p pn. parent xn = Ptr p \<and> heap s p = Some pn \<and> p \<noteq> x \<and> p \<noteq> y \<and> right yn \<noteq> Ptr p)"
  proof (cases c)
    case Nil
    with xn(2) show ?thesis by simp
  next
    case (Cons f c')
    then have "c \<noteq> []" by simp
    from path_at_top [OF c this] obtain p pn where
      "top c Null = Ptr p" "heap s p = Some pn" "p \<in> set (before c) \<union> set (after c)"
      by blast
    with xn(2) d'(9,10,15) bmem show ?thesis by auto
  qed
  have pmem: "p \<in> set (before c) \<union> set (after c)" if "Ptr p = parent xn" for p
  proof (cases c)
    case Nil
    with xn(2) that show ?thesis by simp
  next
    case (Cons f c')
    then have "c \<noteq> []" by simp
    from path_at_top [OF c this] that xn(2) show ?thesis by auto
  qed
  from rightRotate_explicit [OF xn(1) yn(1) yn(2) d'(2) b p] obtain s' where
    s': "rightRotate (Ptr x) s = Some s'"
      "root s' = (if parent xn = Null then Ptr y else root s)"
      "heap s' x = Some (xn\<lparr>left := right yn, parent := Ptr y\<rparr>)"
      "heap s' y = Some (yn\<lparr>parent := parent xn, right := Ptr x\<rparr>)"
      "\<And>b bn. right yn = Ptr b \<Longrightarrow> heap s b = Some bn \<Longrightarrow> heap s' b = Some (bn\<lparr>parent := Ptr x\<rparr>)"
      "\<And>p pn. parent xn = Ptr p \<Longrightarrow> heap s p = Some pn \<Longrightarrow>
          heap s' p = Some (relinkR (Ptr x) (Ptr y) pn)"
      "\<And>a. a \<noteq> x \<Longrightarrow> a \<noteq> y \<Longrightarrow> Ptr a \<noteq> right yn \<Longrightarrow> Ptr a \<noteq> parent xn \<Longrightarrow> heap s' a = heap s a"
      "nxt s' = nxt s" "map_size s' = map_size s" "end_node s' = end_node s"
    by blast
  have fa: "heap s' a = heap s a" if "a \<in> set (inorder tc)" for a
    using that d'(3,6,11,14) bmem pmem by (intro s'(7)) auto
  have fc: "heap s' a = heap s a" if "a \<in> set (inorder ta)" for a
    using that d'(5,8,13,16) bmem pmem by (intro s'(7)) auto
  have fb: "heap s' a = (if Ptr a = right yn then map_option (\<lambda>n. n\<lparr>parent := Ptr x\<rparr>) (heap s a) else heap s a)"
    if "a \<in> set (inorder tb)" for a
  proof (cases "Ptr a = right yn")
    case True
    from tree_at_live [OF yn(4) that] obtain bn where "heap s a = Some bn" by blast
    with True s'(5) [of a bn] show ?thesis by simp
  next
    case False
    then have "heap s' a = heap s a"
      using that d'(4,7,15) pmem by (intro s'(7)) auto
    with False show ?thesis by simp
  qed
  have fp: "heap s' a = (if Ptr a = top c Null then map_option (relinkR (Ptr x) (Ptr y)) (heap s a) else heap s a)"
    if "a \<in> set (before c) \<union> set (after c)" for a
  proof (cases "Ptr a = top c Null")
    case True
    from p True xn(2) obtain pn where "heap s a = Some pn" by auto
    with True s'(6) [of a pn] xn(2) show ?thesis by simp
  next
    case False
    then have "heap s' a = heap s a"
      using that d'(9,10,15) bmem xn(2) by (intro s'(7)) auto
    with False show ?thesis by simp
  qed
  have 1: "tree_at (heap s') (right xn) (Ptr x) tc"
    by (rule tree_at_frame [OF xn(3)]) (rule fa)
  have 2: "tree_at (heap s') (right yn) (Ptr x) tb"
    by (rule tree_at_reparent [OF yn(4) d'(18)]) (rule fb)
  have 3: "tree_at (heap s') (left yn) (Ptr y) ta"
    by (rule tree_at_frame [OF yn(5)]) (rule fc)
  have T: "tree_at (heap s') (Ptr y) (top c Null) (Node ta y (Node tb x tc))"
    using 1 2 3 s'(3,4) xn(2) by simp
  have "path_at (heap s') (Ptr y) c (if c = [] then Ptr y else root s) Null"
    by (rule path_at_relinkR [OF c d'(1) d'(9)]) (rule fp)
  moreover have "(if c = [] then Ptr y else root s) = root s'"
  proof (cases c)
    case Nil
    with xn(2) s'(2) show ?thesis by simp
  next
    case (Cons f c')
    then have "c \<noteq> []" by simp
    from path_at_top [OF c this] xn(2) s'(2) Cons show ?thesis by auto
  qed
  ultimately have P: "path_at (heap s') (Ptr y) c (root s') Null" by simp
  have D: "same_data (heap s) (heap s')"
    unfolding same_data_def
  proof
    fix a
    consider "a = x" | "a = y" | "a \<noteq> x" "a \<noteq> y" "Ptr a = right yn"
      | "a \<noteq> x" "a \<noteq> y" "Ptr a \<noteq> right yn" "Ptr a = parent xn"
      | "a \<noteq> x" "a \<noteq> y" "Ptr a \<noteq> right yn" "Ptr a \<noteq> parent xn"
      by blast
    then show "map_option data (heap s' a) = map_option data (heap s a)"
    proof cases
      case 1
      with s'(3) xn(1) show ?thesis by (simp add: data_def)
    next
      case 2
      with s'(4) yn(2) show ?thesis by (simp add: data_def)
    next
      case 3
      with b obtain bn where "heap s a = Some bn" by auto
      with 3 s'(5) [of a bn] show ?thesis by (simp add: data_def)
    next
      case 4
      with p obtain pn where "heap s a = Some pn" by auto
      with 4 s'(6) [of a pn] show ?thesis by (simp add: data_def relinkR_def)
    next
      case 5
      with s'(7) [of a] show ?thesis by simp
    qed
  qed
  from s'(1,8,9,10) T P D show ?thesis by blast
qed

lemma same_kv_refl [simp]: "same_kv h h"
  by (simp add: same_kv_def)

lemma same_kv_trans: "same_kv h1 h2 \<Longrightarrow> same_kv h2 h3 \<Longrightarrow> same_kv h1 h3"
  by (simp add: same_kv_def)

lemma same_data_kv: "same_data h h' \<Longrightarrow> same_kv h h'"
  unfolding same_data_def same_kv_def
proof
  fix a assume a: "\<forall>a. map_option data (h' a) = map_option data (h a)"
  from a [rule_format, of a] show "map_option kv (h' a) = map_option kv (h a)"
    by (cases "h a"; cases "h' a") (auto simp: data_def kv_def)
qed

lemma same_kv_recolor [simp]: "same_kv h (recolor h a c)"
  by (auto simp: same_kv_def recolor_def kv_def split: option.splits)

lemma same_data_red: "same_data h h' \<Longrightarrow> red h' a = red h a"
  unfolding same_data_def red_def
  by (erule allE [of _ a], cases "h a"; cases "h' a") (auto simp: data_def)

lemma same_data_live: "same_data h h' \<Longrightarrow> h a = Some n \<Longrightarrow> \<exists>n'. h' a = Some n' \<and> color n' = color n"
  unfolding same_data_def
  by (erule allE [of _ a], cases "h' a") (auto simp: data_def)

lemma fix_ok_here:
  "tree_at (heap s) (root s) Null t \<Longrightarrow> inorder t = xs \<Longrightarrow> fix_ok s xs (Some s)"
  by (auto simp: fix_ok_def)

lemma fix_ok_step:
  assumes "fix_ok s1 xs res" "same_kv (heap s) (heap s1)" "nxt s1 = nxt s" "map_size s1 = map_size s"
    "end_node s1 = end_node s"
  shows "fix_ok s xs res"
  using assms unfolding fix_ok_def by (auto intro: same_kv_trans)

lemma at_hole_tree: "at_hole s z c t \<Longrightarrow> tree_at (heap s) (root s) Null (plug c t)"
  by (auto simp: at_hole_def tree_at_plug)

lemma at_hole_zn:
  "at_hole s z c t \<Longrightarrow> \<exists>zn l r. heap s z = Some zn \<and> parent zn = top c Null \<and> t = Node l z r"
  by (cases t) (auto simp: at_hole_def split: option.splits)

lemma top_Cons [simp]: "top (f # c) par = Ptr (node_of f)"
  by (cases f) auto

lemma recolor_None [simp]: "recolor h a c b = None \<longleftrightarrow> h b = None"
  by (auto simp: recolor_def split: option.splits)

lemma set_color_ok:
  "heap s a \<noteq> None \<Longrightarrow> set_color (Ptr a) c s = Some (s\<lparr>heap := recolor (heap s) a c\<rparr>)"
  by (auto simp: set_color_def upd_def recolor_def)

lemma at_hole_recolor [simp]: "at_hole (s\<lparr>heap := recolor (heap s) a c\<rparr>) z cx t = at_hole s z cx t"
  by (simp add: at_hole_def)

lemma at_hole_up: "at_hole s z (f # c) t \<Longrightarrow> at_hole s (node_of f) c (plug [f] t)"
  by (cases f) (auto simp: at_hole_def split: option.splits)

lemma at_hole_parent:
  "at_hole s z (f # c) t \<Longrightarrow>
   \<exists>pn. heap s (node_of f) = Some pn \<and> parent pn = top c Null \<and>
     (case f of LeftOf p tg \<Rightarrow> left pn = Ptr z \<and> right pn \<noteq> Ptr z
      | RightOf tg p \<Rightarrow> right pn = Ptr z \<and> left pn \<noteq> Ptr z)"
proof (cases f)
  case (LeftOf p tg)
  assume h: "at_hole s z (f # c) t"
  then obtain pn where pn: "heap s p = Some pn" "left pn = Ptr z" "parent pn = top c Null"
    "tree_at (heap s) (right pn) (Ptr p) tg"
    unfolding LeftOf by (auto simp: at_hole_def split: option.splits)
  from h obtain l r where "t = Node l z r" by (auto dest: at_hole_zn)
  with h have "z \<notin> set (inorder tg)"
    unfolding LeftOf by (auto simp: at_hole_def inorder_plug)
  with pn(4) have "right pn \<noteq> Ptr z" by (auto dest: tree_at_root_mem)
  with pn LeftOf show ?thesis by simp
next
  case (RightOf tg p)
  assume h: "at_hole s z (f # c) t"
  then obtain pn where pn: "heap s p = Some pn" "right pn = Ptr z" "parent pn = top c Null"
    "tree_at (heap s) (left pn) (Ptr p) tg"
    unfolding RightOf by (auto simp: at_hole_def split: option.splits)
  from h obtain l r where "t = Node l z r" by (auto dest: at_hole_zn)
  with h have "z \<notin> set (inorder tg)"
    unfolding RightOf by (auto simp: at_hole_def inorder_plug)
  with pn(4) have "left pn \<noteq> Ptr z" by (auto dest: tree_at_root_mem)
  with pn RightOf show ?thesis by simp
qed

lemma path_at_root:
  "path_at h q c r par \<Longrightarrow> c \<noteq> [] \<Longrightarrow>
   \<exists>a. r = Ptr a \<and> a \<in> set (before c) \<union> set (after c)"
proof (induction h q c r par rule: path_at.induct)
  case (1 h p q par)
  then show ?case by simp
next
  case (2 h p a r c q par)
  then show ?case by (cases c) (auto split: option.splits)
next
  case (3 h p l a c q par)
  then show ?case by (cases c) (auto split: option.splits)
qed

lemma at_hole_root_outside:
  "at_hole s z c t \<Longrightarrow> c \<noteq> [] \<Longrightarrow> \<exists>a. root s = Ptr a \<and> a \<notin> set (inorder t)"
proof -
  assume h: "at_hole s z c t" and c: "c \<noteq> []"
  then have "path_at (heap s) (Ptr z) c (root s) Null" by (simp add: at_hole_def)
  from path_at_root [OF this c] obtain a where a: "root s = Ptr a"
    "a \<in> set (before c) \<union> set (after c)" by blast
  from h have "distinct (before c @ inorder t @ after c)"
    by (simp add: at_hole_def inorder_plug)
  with a show ?thesis by auto
qed

lemma loop_exit_root:
  "heap s a = Some an \<Longrightarrow> parent an = Null \<Longrightarrow> fixInsert_loop (Ptr a) s = Some s"
  by (subst fixInsert_loop.simps) (simp add: node_at_def)

lemma loop_exit_black:
  "heap s a = Some an \<Longrightarrow> parent an = Ptr b \<Longrightarrow> heap s b = Some bn \<Longrightarrow> \<not> color bn \<Longrightarrow>
   fixInsert_loop (Ptr a) s = Some s"
  by (subst fixInsert_loop.simps) (simp add: node_at_def)

lemma at_hole_recolor' [simp]:
  "at_hole (s\<lparr>heap := recolor h a c\<rparr>) z cx t = at_hole (s\<lparr>heap := h\<rparr>) z cx t"
  by (simp add: at_hole_def)

lemma kv_recolor: "map_option kv (recolor h a c b) = map_option kv (h b)"
  by (auto simp: recolor_def kv_def split: option.splits)

lemma same_kv_recolor_iff [simp]: "same_kv h (recolor h' a c) = same_kv h h'"
  by (simp add: same_kv_def kv_recolor)

lemma at_hole_self [simp]: "at_hole (s\<lparr>heap := heap s\<rparr>) z cx t = at_hole s z cx t"
  by (simp add: at_hole_def)

lemma at_hole_rotated:
  assumes "tree_at (heap s') (Ptr y) (top c Null) t'" "path_at (heap s') (Ptr y) c (root s') Null"
    "at_hole s x c t" "distinct (inorder t')" "set (inorder t') = set (inorder t)"
  shows "at_hole s' y c t'"
proof -
  from assms(3) have "distinct (before c @ inorder t @ after c)"
    by (simp add: at_hole_def inorder_plug)
  then have "distinct (before c @ inorder t' @ after c)"
    using assms(4,5) by auto
  with assms(1,2) show ?thesis by (simp add: at_hole_def inorder_plug)
qed

lemma fixInsert_left_recolor:
  fixes s :: "('k, 'v) rbt"
  assumes IH: "\<And>(s' :: ('k, 'v) rbt) t'. at_hole s' g rest t' \<Longrightarrow> (rest \<noteq> [] \<longrightarrow> black_root s') \<Longrightarrow>
             fix_ok s' (inorder (plug rest t')) (fixInsert_loop (Ptr g) s')"
    and h: "at_hole s z (f1 # LeftOf g (Node ul u ur) # rest) t"
    and br: "black_root s"
    and rd: "red (heap s) (node_of f1)" "red (heap s) u"
  shows "fix_ok s (inorder (plug (f1 # LeftOf g (Node ul u ur) # rest) t)) (fixInsert_loop (Ptr z) s)"
proof -
  define p where "p = node_of f1"
  let ?U = "Node ul u ur"
  from at_hole_zn [OF h] obtain zn l r where
    zn: "heap s z = Some zn" "parent zn = Ptr p" "t = Node l z r"
    by (auto simp: p_def)
  from at_hole_parent [OF h] obtain pn where
    pn: "heap s p = Some pn" "parent pn = Ptr g"
    by (auto simp: p_def)
  have h1: "at_hole s p (LeftOf g ?U # rest) (plug [f1] t)"
    unfolding p_def by (rule at_hole_up [OF h])
  from at_hole_parent [OF h1] obtain gn where
    gn: "heap s g = Some gn" "parent gn = top rest Null" "left gn = Ptr p" "Ptr p \<noteq> right gn"
    by auto
  have h2: "at_hole s g rest (Node (plug [f1] t) g ?U)"
    using at_hole_up [OF h1] by simp
  from h1 gn(1) have "tree_at (heap s) (right gn) (Ptr g) ?U"
    by (auto simp: at_hole_def)
  then obtain un where un: "right gn = Ptr u" "heap s u = Some un"
    by (auto split: option.splits)
  from rd pn un have cp: "color pn" and cu: "color un"
    by (simp_all add: red_def p_def)
  from gn(4) un(1) have pu: "p \<noteq> u" by simp
  define s1 where "s1 = s\<lparr>heap := recolor (heap s) p False\<rparr>"
  define s2 where "s2 = s1\<lparr>heap := recolor (heap s1) u False\<rparr>"
  define s3 where "s3 = s2\<lparr>heap := recolor (heap s2) g True\<rparr>"
  have e1: "set_color (Ptr p) False s = Some s1"
    unfolding s1_def by (rule set_color_ok) (simp add: pn)
  have e2: "set_color (Ptr u) False s1 = Some s2"
    unfolding s2_def by (rule set_color_ok) (simp add: s1_def un)
  have e3: "set_color (Ptr g) True s2 = Some s3"
    unfolding s3_def by (rule set_color_ok) (simp add: s2_def s1_def gn)
  have eq: "fixInsert_loop (Ptr z) s = fixInsert_loop (Ptr g) s3"
    by (subst fixInsert_loop.simps)
       (simp add: node_at_def zn pn gn un cp cu pu is_red_def e1 e2 e3)
  have h3: "at_hole s3 g rest (Node (plug [f1] t) g ?U)"
    using h2 by (simp add: s3_def s2_def s1_def)
  have mem: "g \<in> set (inorder (Node (plug [f1] t) g ?U))" "u \<in> set (inorder (Node (plug [f1] t) g ?U))"
    "p \<in> set (inorder (Node (plug [f1] t) g ?U))"
    by (cases f1; simp add: p_def)+
  have b3: "rest \<noteq> [] \<longrightarrow> black_root s3"
  proof
    assume "rest \<noteq> []"
    from at_hole_root_outside [OF h2 this] obtain a where
      a: "root s = Ptr a" "a \<notin> set (inorder (Node (plug [f1] t) g ?U))" by blast
    with mem have "a \<noteq> g" "a \<noteq> u" "a \<noteq> p" by auto
    with br a(1) show "black_root s3"
      by (simp add: black_root_def s3_def s2_def s1_def red_recolor)
  qed
  have "fix_ok s3 (inorder (plug rest (Node (plug [f1] t) g ?U))) (fixInsert_loop (Ptr g) s3)"
    by (rule IH [OF h3 b3])
  moreover have "plug rest (Node (plug [f1] t) g ?U) = plug (f1 # LeftOf g ?U # rest) t"
    by (cases f1) simp_all
  moreover have "same_kv (heap s) (heap s3)"
    by (simp add: s3_def s2_def s1_def)
  ultimately show ?thesis
    unfolding eq by (auto intro: fix_ok_step simp: s3_def s2_def s1_def)
qed

lemma is_red_root:
  "tree_at (heap s) q par t \<Longrightarrow> is_red s q = Some (red_root (heap s) t)"
  by (cases t) (auto simp: is_red_def red_root_def red_def split: option.splits)

lemma fixInsert_left_rotate:
  fixes s :: "('k, 'v) rbt"
  assumes h: "at_hole s z (f1 # LeftOf g U # rest) t"
    and rd: "red (heap s) (node_of f1)"
    and nu: "\<not> red_root (heap s) U"
  shows "fix_ok s (inorder (plug (f1 # LeftOf g U # rest) t)) (fixInsert_loop (Ptr z) s)"
proof -
  define p where "p = node_of f1"
  from at_hole_zn [OF h] obtain zn l r where
    zn: "heap s z = Some zn" "parent zn = Ptr p" "t = Node l z r"
    by (auto simp: p_def)
  from at_hole_parent [OF h] obtain pn where
    pn: "heap s p = Some pn" "parent pn = Ptr g"
      "case f1 of LeftOf p tg \<Rightarrow> left pn = Ptr z \<and> right pn \<noteq> Ptr z
       | RightOf tg p \<Rightarrow> right pn = Ptr z \<and> left pn \<noteq> Ptr z"
    by (auto simp: p_def)
  have h1: "at_hole s p (LeftOf g U # rest) (plug [f1] t)"
    unfolding p_def by (rule at_hole_up [OF h])
  from at_hole_parent [OF h1] obtain gn where
    gn: "heap s g = Some gn" "parent gn = top rest Null" "left gn = Ptr p" "Ptr p \<noteq> right gn"
    by auto
  from h1 gn(1) have "tree_at (heap s) (right gn) (Ptr g) U"
    by (auto simp: at_hole_def)
  from is_red_root [OF this] nu have ir: "is_red s (right gn) = Some False" by simp
  from rd pn have cp: "color pn" by (simp add: red_def p_def)
  from h have dz: "distinct (inorder (plug (f1 # LeftOf g U # rest) t))"
    by (simp add: at_hole_def)
  show ?thesis
  proof (cases f1)
    case (LeftOf p' tg)
    then have p': "p' = p" by (simp add: p_def)
    from pn(3) LeftOf have side: "left pn = Ptr z" "Ptr z \<noteq> right pn" by auto
    define s2 where "s2 = s\<lparr>heap := recolor (heap s) p False\<rparr>"
    define s3 where "s3 = s2\<lparr>heap := recolor (heap s2) g True\<rparr>"
    have e1: "set_color (Ptr p) False s = Some s2"
      unfolding s2_def by (rule set_color_ok) (simp add: pn)
    have n2: "heap s2 p = Some (pn\<lparr>color := False\<rparr>)"
      by (simp add: s2_def recolor_apply pn)
    have e2: "set_color (Ptr g) True s2 = Some s3"
      unfolding s3_def by (rule set_color_ok) (simp add: s2_def gn)
    have h3: "at_hole s3 g rest (Node (Node t p tg) g U)"
      using at_hole_up [OF h1] LeftOf p' by (simp add: s3_def s2_def)
    then have "tree_at (heap s3) (Ptr g) (top rest Null) (Node (Node t p tg) g U)"
      "path_at (heap s3) (Ptr g) rest (root s3) Null"
      "distinct (inorder (plug rest (Node (Node t p tg) g U)))"
      by (simp_all add: at_hole_def)
    from rightRotate_ctx [OF this] obtain s4 where
      s4: "rightRotate (Ptr g) s3 = Some s4"
        "tree_at (heap s4) (Ptr p) (top rest Null) (Node t p (Node tg g U))"
        "path_at (heap s4) (Ptr p) rest (root s4) Null"
        "same_data (heap s3) (heap s4)"
        "nxt s4 = nxt s3" "map_size s4 = map_size s3" "end_node s4 = end_node s3"
      by blast
    have eq: "fixInsert_loop (Ptr z) s = fixInsert_loop (Ptr z) s4"
      by (subst fixInsert_loop.simps)
         (simp add: node_at_def zn pn gn cp ir side e1 n2 e2 s4(1))
    from s4(2) zn(3) obtain pn4 zn4 where
      n4: "heap s4 p = Some pn4" "heap s4 z = Some zn4" "parent zn4 = Ptr p"
      by (auto split: option.splits)
    have "red (heap s3) p = False"
      using dz LeftOf p' zn(3) by (auto simp: s3_def s2_def red_recolor pn inorder_plug)
    with same_data_red [OF s4(4), of p] n4(1) have "\<not> color pn4"
      by (simp add: red_def)
    with n4 have ex: "fixInsert_loop (Ptr z) s4 = Some s4"
      by (intro loop_exit_black)
    have T: "tree_at (heap s4) (root s4) Null (plug rest (Node t p (Node tg g U)))"
      using s4(2,3) by (auto simp: tree_at_plug)
    have I: "inorder (plug rest (Node t p (Node tg g U))) = inorder (plug (f1 # LeftOf g U # rest) t)"
      using LeftOf p' by (simp add: inorder_plug)
    have K: "same_kv (heap s) (heap s4)"
      by (rule same_kv_trans [OF _ same_data_kv [OF s4(4)]]) (simp add: s3_def s2_def)
    from T I K s4(5,6,7) show ?thesis
      unfolding eq ex fix_ok_def by (auto simp: s3_def s2_def)
  next
    case (RightOf tg p')
    then have p': "p' = p" by (simp add: p_def)
    from pn(3) RightOf have side: "right pn = Ptr z" by simp
    from h1 RightOf p' zn(3) have
      "tree_at (heap s) (Ptr p) (top (LeftOf g U # rest) Null) (Node tg p (Node l z r))"
      "path_at (heap s) (Ptr p) (LeftOf g U # rest) (root s) Null"
      "distinct (inorder (plug (LeftOf g U # rest) (Node tg p (Node l z r))))"
      by (simp_all add: at_hole_def)
    from leftRotate_ctx [OF this] obtain s1 where
      s1: "leftRotate (Ptr p) s = Some s1"
        "tree_at (heap s1) (Ptr z) (top (LeftOf g U # rest) Null) (Node (Node tg p l) z r)"
        "path_at (heap s1) (Ptr z) (LeftOf g U # rest) (root s1) Null"
        "same_data (heap s) (heap s1)"
        "nxt s1 = nxt s" "map_size s1 = map_size s" "end_node s1 = end_node s"
      by blast
    have h1': "at_hole s1 z (LeftOf g U # rest) (Node (Node tg p l) z r)"
      by (rule at_hole_rotated [OF s1(2,3) h1])
         (use dz RightOf p' zn(3) in \<open>auto simp: inorder_plug\<close>)
    from s1(2) obtain zn1 pn1 where
      n1: "heap s1 z = Some zn1" "parent zn1 = Ptr g" "heap s1 p = Some pn1" "parent pn1 = Ptr z"
      by (auto split: option.splits)
    from at_hole_parent [OF h1'] obtain gn1 where gn1: "heap s1 g = Some gn1" by auto
    define s2 where "s2 = s1\<lparr>heap := recolor (heap s1) z False\<rparr>"
    define s3 where "s3 = s2\<lparr>heap := recolor (heap s2) g True\<rparr>"
    have e1: "set_color (Ptr z) False s1 = Some s2"
      unfolding s2_def by (rule set_color_ok) (simp add: n1)
    have n2: "heap s2 z = Some (zn1\<lparr>color := False\<rparr>)"
      by (simp add: s2_def recolor_apply n1)
    have e2: "set_color (Ptr g) True s2 = Some s3"
      unfolding s3_def by (rule set_color_ok) (simp add: s2_def gn1)
    have h3: "at_hole s3 g rest (Node (Node (Node tg p l) z r) g U)"
      using at_hole_up [OF h1'] by (simp add: s3_def s2_def)
    then have "tree_at (heap s3) (Ptr g) (top rest Null) (Node (Node (Node tg p l) z r) g U)"
      "path_at (heap s3) (Ptr g) rest (root s3) Null"
      "distinct (inorder (plug rest (Node (Node (Node tg p l) z r) g U)))"
      by (simp_all add: at_hole_def)
    from rightRotate_ctx [OF this] obtain s4 where
      s4: "rightRotate (Ptr g) s3 = Some s4"
        "tree_at (heap s4) (Ptr z) (top rest Null) (Node (Node tg p l) z (Node r g U))"
        "path_at (heap s4) (Ptr z) rest (root s4) Null"
        "same_data (heap s3) (heap s4)"
        "nxt s4 = nxt s3" "map_size s4 = map_size s3" "end_node s4 = end_node s3"
      by blast
    have eq: "fixInsert_loop (Ptr z) s = fixInsert_loop (Ptr p) s4"
      by (subst fixInsert_loop.simps)
         (simp add: node_at_def zn pn gn cp ir side s1(1) n1 e1 n2 e2 s4(1))
    from s4(2) obtain pn4 zn4 where
      n4: "heap s4 z = Some zn4" "heap s4 p = Some pn4" "parent pn4 = Ptr z"
      by (auto split: option.splits)
    have "red (heap s3) z = False"
      using dz RightOf p' zn(3) by (auto simp: s3_def s2_def red_recolor n1 inorder_plug)
    with same_data_red [OF s4(4), of z] n4(1) have "\<not> color zn4"
      by (simp add: red_def)
    with n4 have ex: "fixInsert_loop (Ptr p) s4 = Some s4"
      by (intro loop_exit_black)
    have T: "tree_at (heap s4) (root s4) Null (plug rest (Node (Node tg p l) z (Node r g U)))"
      using s4(2,3) by (auto simp: tree_at_plug)
    have I: "inorder (plug rest (Node (Node tg p l) z (Node r g U)))
        = inorder (plug (f1 # LeftOf g U # rest) t)"
      using RightOf p' zn(3) by (simp add: inorder_plug)
    have K: "same_kv (heap s) (heap s4)"
      by (rule same_kv_trans [OF same_data_kv [OF s1(4)] same_kv_trans [OF _ same_data_kv [OF s4(4)]]])
         (simp add: s3_def s2_def)
    from T I K s4(5,6,7) s1(5,6,7) show ?thesis
      unfolding eq ex fix_ok_def by (auto simp: s3_def s2_def)
  qed
qed

lemma fixInsert_right_recolor:
  fixes s :: "('k, 'v) rbt"
  assumes IH: "\<And>(s' :: ('k, 'v) rbt) t'. at_hole s' g rest t' \<Longrightarrow> (rest \<noteq> [] \<longrightarrow> black_root s') \<Longrightarrow>
             fix_ok s' (inorder (plug rest t')) (fixInsert_loop (Ptr g) s')"
    and h: "at_hole s z (f1 # RightOf (Node ur u ul) g # rest) t"
    and br: "black_root s"
    and rd: "red (heap s) (node_of f1)" "red (heap s) u"
  shows "fix_ok s (inorder (plug (f1 # RightOf (Node ur u ul) g # rest) t)) (fixInsert_loop (Ptr z) s)"
proof -
  define p where "p = node_of f1"
  let ?U = "Node ur u ul"
  from at_hole_zn [OF h] obtain zn l r where
    zn: "heap s z = Some zn" "parent zn = Ptr p" "t = Node r z l"
    by (auto simp: p_def)
  from at_hole_parent [OF h] obtain pn where
    pn: "heap s p = Some pn" "parent pn = Ptr g"
    by (auto simp: p_def)
  have h1: "at_hole s p (RightOf ?U g # rest) (plug [f1] t)"
    unfolding p_def by (rule at_hole_up [OF h])
  from at_hole_parent [OF h1] obtain gn where
    gn: "heap s g = Some gn" "parent gn = top rest Null" "right gn = Ptr p" "Ptr p \<noteq> left gn"
    by auto
  have h2: "at_hole s g rest (Node ?U g (plug [f1] t))"
    using at_hole_up [OF h1] by simp
  from h1 gn(1) have "tree_at (heap s) (left gn) (Ptr g) ?U"
    by (auto simp: at_hole_def)
  then obtain un where un: "left gn = Ptr u" "heap s u = Some un"
    by (auto split: option.splits)
  from rd pn un have cp: "color pn" and cu: "color un"
    by (simp_all add: red_def p_def)
  from gn(4) un(1) have pu: "p \<noteq> u" by simp
  define s1 where "s1 = s\<lparr>heap := recolor (heap s) p False\<rparr>"
  define s2 where "s2 = s1\<lparr>heap := recolor (heap s1) u False\<rparr>"
  define s3 where "s3 = s2\<lparr>heap := recolor (heap s2) g True\<rparr>"
  have e1: "set_color (Ptr p) False s = Some s1"
    unfolding s1_def by (rule set_color_ok) (simp add: pn)
  have e2: "set_color (Ptr u) False s1 = Some s2"
    unfolding s2_def by (rule set_color_ok) (simp add: s1_def un)
  have e3: "set_color (Ptr g) True s2 = Some s3"
    unfolding s3_def by (rule set_color_ok) (simp add: s2_def s1_def gn)
  have eq: "fixInsert_loop (Ptr z) s = fixInsert_loop (Ptr g) s3"
    by (subst fixInsert_loop.simps)
       (simp add: node_at_def zn pn gn un cp cu pu is_red_def e1 e2 e3)
  have h3: "at_hole s3 g rest (Node ?U g (plug [f1] t))"
    using h2 by (simp add: s3_def s2_def s1_def)
  have mem: "g \<in> set (inorder (Node ?U g (plug [f1] t)))" "u \<in> set (inorder (Node ?U g (plug [f1] t)))"
    "p \<in> set (inorder (Node ?U g (plug [f1] t)))"
    by (cases f1; simp add: p_def)+
  have b3: "rest \<noteq> [] \<longrightarrow> black_root s3"
  proof
    assume "rest \<noteq> []"
    from at_hole_root_outside [OF h2 this] obtain a where
      a: "root s = Ptr a" "a \<notin> set (inorder (Node ?U g (plug [f1] t)))" by blast
    with mem have "a \<noteq> g" "a \<noteq> u" "a \<noteq> p" by auto
    with br a(1) show "black_root s3"
      by (simp add: black_root_def s3_def s2_def s1_def red_recolor)
  qed
  have "fix_ok s3 (inorder (plug rest (Node ?U g (plug [f1] t)))) (fixInsert_loop (Ptr g) s3)"
    by (rule IH [OF h3 b3])
  moreover have "plug rest (Node ?U g (plug [f1] t)) = plug (f1 # RightOf ?U g # rest) t"
    by (cases f1) simp_all
  moreover have "same_kv (heap s) (heap s3)"
    by (simp add: s3_def s2_def s1_def)
  ultimately show ?thesis
    unfolding eq by (auto intro: fix_ok_step simp: s3_def s2_def s1_def)
qed

lemma fixInsert_right_rotate:
  fixes s :: "('k, 'v) rbt"
  assumes h: "at_hole s z (f1 # RightOf U g # rest) t"
    and rd: "red (heap s) (node_of f1)"
    and nu: "\<not> red_root (heap s) U"
  shows "fix_ok s (inorder (plug (f1 # RightOf U g # rest) t)) (fixInsert_loop (Ptr z) s)"
proof -
  define p where "p = node_of f1"
  from at_hole_zn [OF h] obtain zn l r where
    zn: "heap s z = Some zn" "parent zn = Ptr p" "t = Node r z l"
    by (auto simp: p_def)
  from at_hole_parent [OF h] obtain pn where
    pn: "heap s p = Some pn" "parent pn = Ptr g"
      "case f1 of RightOf tg p \<Rightarrow> right pn = Ptr z \<and> left pn \<noteq> Ptr z
       | LeftOf p tg \<Rightarrow> left pn = Ptr z \<and> right pn \<noteq> Ptr z"
    by (auto simp: p_def)
  have h1: "at_hole s p (RightOf U g # rest) (plug [f1] t)"
    unfolding p_def by (rule at_hole_up [OF h])
  from at_hole_parent [OF h1] obtain gn where
    gn: "heap s g = Some gn" "parent gn = top rest Null" "right gn = Ptr p" "Ptr p \<noteq> left gn"
    by auto
  from h1 gn(1) have "tree_at (heap s) (left gn) (Ptr g) U"
    by (auto simp: at_hole_def)
  from is_red_root [OF this] nu have ir: "is_red s (left gn) = Some False" by simp
  from rd pn have cp: "color pn" by (simp add: red_def p_def)
  from h have dz: "distinct (inorder (plug (f1 # RightOf U g # rest) t))"
    by (simp add: at_hole_def)
  show ?thesis
  proof (cases f1)
    case (RightOf tg p')
    then have p': "p' = p" by (simp add: p_def)
    from pn(3) RightOf have side: "right pn = Ptr z" "Ptr z \<noteq> left pn" by auto
    define s2 where "s2 = s\<lparr>heap := recolor (heap s) p False\<rparr>"
    define s3 where "s3 = s2\<lparr>heap := recolor (heap s2) g True\<rparr>"
    have e1: "set_color (Ptr p) False s = Some s2"
      unfolding s2_def by (rule set_color_ok) (simp add: pn)
    have n2: "heap s2 p = Some (pn\<lparr>color := False\<rparr>)"
      by (simp add: s2_def recolor_apply pn)
    have e2: "set_color (Ptr g) True s2 = Some s3"
      unfolding s3_def by (rule set_color_ok) (simp add: s2_def gn)
    have h3: "at_hole s3 g rest (Node U g (Node tg p t))"
      using at_hole_up [OF h1] RightOf p' by (simp add: s3_def s2_def)
    then have "tree_at (heap s3) (Ptr g) (top rest Null) (Node U g (Node tg p t))"
      "path_at (heap s3) (Ptr g) rest (root s3) Null"
      "distinct (inorder (plug rest (Node U g (Node tg p t))))"
      by (simp_all add: at_hole_def)
    from leftRotate_ctx [OF this] obtain s4 where
      s4: "leftRotate (Ptr g) s3 = Some s4"
        "tree_at (heap s4) (Ptr p) (top rest Null) (Node (Node U g tg) p t)"
        "path_at (heap s4) (Ptr p) rest (root s4) Null"
        "same_data (heap s3) (heap s4)"
        "nxt s4 = nxt s3" "map_size s4 = map_size s3" "end_node s4 = end_node s3"
      by blast
    have eq: "fixInsert_loop (Ptr z) s = fixInsert_loop (Ptr z) s4"
      by (subst fixInsert_loop.simps)
         (simp add: node_at_def zn pn gn cp ir side e1 n2 e2 s4(1))
    from s4(2) zn(3) obtain pn4 zn4 where
      n4: "heap s4 p = Some pn4" "heap s4 z = Some zn4" "parent zn4 = Ptr p"
      by (auto split: option.splits)
    have "red (heap s3) p = False"
      using dz RightOf p' zn(3) by (auto simp: s3_def s2_def red_recolor pn inorder_plug)
    with same_data_red [OF s4(4), of p] n4(1) have "\<not> color pn4"
      by (simp add: red_def)
    with n4 have ex: "fixInsert_loop (Ptr z) s4 = Some s4"
      by (intro loop_exit_black)
    have T: "tree_at (heap s4) (root s4) Null (plug rest (Node (Node U g tg) p t))"
      using s4(2,3) by (auto simp: tree_at_plug)
    have I: "inorder (plug rest (Node (Node U g tg) p t)) = inorder (plug (f1 # RightOf U g # rest) t)"
      using RightOf p' by (simp add: inorder_plug)
    have K: "same_kv (heap s) (heap s4)"
      by (rule same_kv_trans [OF _ same_data_kv [OF s4(4)]]) (simp add: s3_def s2_def)
    from T I K s4(5,6,7) show ?thesis
      unfolding eq ex fix_ok_def by (auto simp: s3_def s2_def)
  next
    case (LeftOf p' tg)
    then have p': "p' = p" by (simp add: p_def)
    from pn(3) LeftOf have side: "left pn = Ptr z" by simp
    from h1 LeftOf p' zn(3) have
      "tree_at (heap s) (Ptr p) (top (RightOf U g # rest) Null) (Node (Node r z l) p tg)"
      "path_at (heap s) (Ptr p) (RightOf U g # rest) (root s) Null"
      "distinct (inorder (plug (RightOf U g # rest) (Node (Node r z l) p tg)))"
      by (simp_all add: at_hole_def)
    from rightRotate_ctx [OF this] obtain s1 where
      s1: "rightRotate (Ptr p) s = Some s1"
        "tree_at (heap s1) (Ptr z) (top (RightOf U g # rest) Null) (Node r z (Node l p tg))"
        "path_at (heap s1) (Ptr z) (RightOf U g # rest) (root s1) Null"
        "same_data (heap s) (heap s1)"
        "nxt s1 = nxt s" "map_size s1 = map_size s" "end_node s1 = end_node s"
      by blast
    have h1': "at_hole s1 z (RightOf U g # rest) (Node r z (Node l p tg))"
      by (rule at_hole_rotated [OF s1(2,3) h1])
         (use dz LeftOf p' zn(3) in \<open>auto simp: inorder_plug\<close>)
    from s1(2) obtain zn1 pn1 where
      n1: "heap s1 z = Some zn1" "parent zn1 = Ptr g" "heap s1 p = Some pn1" "parent pn1 = Ptr z"
      by (auto split: option.splits)
    from at_hole_parent [OF h1'] obtain gn1 where gn1: "heap s1 g = Some gn1" by auto
    define s2 where "s2 = s1\<lparr>heap := recolor (heap s1) z False\<rparr>"
    define s3 where "s3 = s2\<lparr>heap := recolor (heap s2) g True\<rparr>"
    have e1: "set_color (Ptr z) False s1 = Some s2"
      unfolding s2_def by (rule set_color_ok) (simp add: n1)
    have n2: "heap s2 z = Some (zn1\<lparr>color := False\<rparr>)"
      by (simp add: s2_def recolor_apply n1)
    have e2: "set_color (Ptr g) True s2 = Some s3"
      unfolding s3_def by (rule set_color_ok) (simp add: s2_def gn1)
    have h3: "at_hole s3 g rest (Node U g (Node r z (Node l p tg)))"
      using at_hole_up [OF h1'] by (simp add: s3_def s2_def)
    then have "tree_at (heap s3) (Ptr g) (top rest Null) (Node U g (Node r z (Node l p tg)))"
      "path_at (heap s3) (Ptr g) rest (root s3) Null"
      "distinct (inorder (plug rest (Node U g (Node r z (Node l p tg)))))"
      by (simp_all add: at_hole_def)
    from leftRotate_ctx [OF this] obtain s4 where
      s4: "leftRotate (Ptr g) s3 = Some s4"
        "tree_at (heap s4) (Ptr z) (top rest Null) (Node (Node U g r) z (Node l p tg))"
        "path_at (heap s4) (Ptr z) rest (root s4) Null"
        "same_data (heap s3) (heap s4)"
        "nxt s4 = nxt s3" "map_size s4 = map_size s3" "end_node s4 = end_node s3"
      by blast
    have eq: "fixInsert_loop (Ptr z) s = fixInsert_loop (Ptr p) s4"
      by (subst fixInsert_loop.simps)
         (simp add: node_at_def zn pn gn cp ir side s1(1) n1 e1 n2 e2 s4(1))
    from s4(2) obtain pn4 zn4 where
      n4: "heap s4 z = Some zn4" "heap s4 p = Some pn4" "parent pn4 = Ptr z"
      by (auto split: option.splits)
    have "red (heap s3) z = False"
      using dz LeftOf p' zn(3) by (auto simp: s3_def s2_def red_recolor n1 inorder_plug)
    with same_data_red [OF s4(4), of z] n4(1) have "\<not> color zn4"
      by (simp add: red_def)
    with n4 have ex: "fixInsert_loop (Ptr p) s4 = Some s4"
      by (intro loop_exit_black)
    have T: "tree_at (heap s4) (root s4) Null (plug rest (Node (Node U g r) z (Node l p tg)))"
      using s4(2,3) by (auto simp: tree_at_plug)
    have I: "inorder (plug rest (Node (Node U g r) z (Node l p tg)))
        = inorder (plug (f1 # RightOf U g # rest) t)"
      using LeftOf p' zn(3) by (simp add: inorder_plug)
    have K: "same_kv (heap s) (heap s4)"
      by (rule same_kv_trans [OF same_data_kv [OF s1(4)] same_kv_trans [OF _ same_data_kv [OF s4(4)]]])
         (simp add: s3_def s2_def)
    from T I K s4(5,6,7) s1(5,6,7) show ?thesis
      unfolding eq ex fix_ok_def by (auto simp: s3_def s2_def)
  qed
qed

lemma fixInsert_loop_total:
  fixes s :: "('k, 'v) rbt"
  shows "at_hole s z c t \<Longrightarrow> (c \<noteq> [] \<longrightarrow> black_root s) \<Longrightarrow>
    fix_ok s (inorder (plug c t)) (fixInsert_loop (Ptr z) s)"
proof (induction "length c" arbitrary: c s z t rule: less_induct)
  case less
  note h = less.prems(1) and br = less.prems(2)
  from at_hole_zn [OF h] obtain zn l r where
    zn: "heap s z = Some zn" "parent zn = top c Null" "t = Node l z r"
    by blast
  have here: "fix_ok s (inorder (plug c t)) (Some s)"
    by (rule fix_ok_here [OF at_hole_tree [OF h] refl])
  show ?case
  proof (cases c)
    case Nil
    with zn have "fixInsert_loop (Ptr z) s = Some s"
      by (intro loop_exit_root) simp_all
    with here show ?thesis by simp
  next
    case c1: (Cons f1 c1)
    from at_hole_parent [OF h [unfolded c1]] obtain pn where
      pn: "heap s (node_of f1) = Some pn" "parent pn = top c1 Null"
      by blast
    have zp: "parent zn = Ptr (node_of f1)" using zn(2) c1 by simp
    show ?thesis
    proof (cases "color pn")
      case False
      with zn(1) zp pn(1) have "fixInsert_loop (Ptr z) s = Some s"
        by (intro loop_exit_black)
      with here show ?thesis by simp
    next
      case True
      then have rd: "red (heap s) (node_of f1)" using pn(1) by (simp add: red_def)
      show ?thesis
      proof (cases c1)
        case Nil
        from h c1 Nil have "root s = Ptr (node_of f1)"
          by (cases f1) (auto simp: at_hole_def split: option.splits)
        with br c1 rd show ?thesis by (simp add: black_root_def)
      next
        case (Cons f2 rest)
        have IH: "fix_ok s' (inorder (plug rest t')) (fixInsert_loop (Ptr g) s')"
          if "at_hole s' g rest t'" "rest \<noteq> [] \<longrightarrow> black_root s'" for s' :: "('k, 'v) rbt" and t' g
          using that by (intro less.hyps) (simp_all add: c1 Cons)
        from br c1 have b: "black_root s" by simp
        show ?thesis
        proof (cases f2)
          case (LeftOf g U)
          note h' = h [unfolded c1 Cons LeftOf]
          show ?thesis
          proof (cases "red_root (heap s) U")
            case True
            then obtain ul u ur where U: "U = Node ul u ur" "red (heap s) u"
              by (cases U) (auto simp: red_root_def)
            show ?thesis
              unfolding c1 Cons LeftOf U(1)
              by (rule fixInsert_left_recolor [OF IH h' [unfolded U(1)] b rd U(2)])
          next
            case False
            show ?thesis
              unfolding c1 Cons LeftOf
              by (rule fixInsert_left_rotate [OF h' rd False])
          qed
        next
          case (RightOf U g)
          note h' = h [unfolded c1 Cons RightOf]
          show ?thesis
          proof (cases "red_root (heap s) U")
            case True
            then obtain ul u ur where U: "U = Node ul u ur" "red (heap s) u"
              by (cases U) (auto simp: red_root_def)
            show ?thesis
              unfolding c1 Cons RightOf U(1)
              by (rule fixInsert_right_recolor [OF IH h' [unfolded U(1)] b rd U(2)])
          next
            case False
            show ?thesis
              unfolding c1 Cons RightOf
              by (rule fixInsert_right_rotate [OF h' rd False])
          qed
        qed
      qed
    qed
  qed
qed

lemma fixInsert_total:
  fixes s :: "('k, 'v) rbt"
  assumes "at_hole s z c t" "c \<noteq> [] \<longrightarrow> black_root s"
  shows "\<exists>s' t'. fixInsert (Ptr z) s = Some s' \<and> tree_at (heap s') (root s') Null t' \<and>
     inorder t' = inorder (plug c t) \<and> same_kv (heap s) (heap s') \<and> black_root s' \<and>
     nxt s' = nxt s \<and> map_size s' = map_size s \<and> end_node s' = end_node s"
proof -
  from fixInsert_loop_total [OF assms] obtain s1 t1 where
    1: "fixInsert_loop (Ptr z) s = Some s1" "tree_at (heap s1) (root s1) Null t1"
      "inorder t1 = inorder (plug c t)" "same_kv (heap s) (heap s1)"
      "nxt s1 = nxt s" "map_size s1 = map_size s" "end_node s1 = end_node s"
    unfolding fix_ok_def by blast
  from at_hole_zn [OF assms(1)] obtain l r where "t = Node l z r" by blast
  with 1(3) have "t1 \<noteq> Leaf" by (auto simp: inorder_plug)
  with 1(2) obtain a n where a: "root s1 = Ptr a" "heap s1 a = Some n"
    by (cases t1) (auto split: option.splits)
  let ?s = "s1\<lparr>heap := recolor (heap s1) a False\<rparr>"
  have "set_color (root s1) False s1 = Some ?s"
    unfolding a(1) by (rule set_color_ok) (simp add: a)
  with 1(1) have "fixInsert (Ptr z) s = Some ?s" by (simp add: fixInsert_def)
  moreover have "tree_at (heap ?s) (root ?s) Null t1" using 1(2) by simp
  moreover have "same_kv (heap s) (heap ?s)" using 1(4) by simp
  moreover have "black_root ?s" using a by (simp add: black_root_def red_recolor)
  ultimately show ?thesis using 1(3,5,6,7) by (intro exI [of _ ?s] exI [of _ t1]) simp
qed

lemma path_at_attach:
  assumes "path_at h q (f # c) r par" "distinct (before (f # c) @ after (f # c))"
    and "h (node_of f) = Some n"
    and "h' (node_of f) = Some (case f of LeftOf a rt \<Rightarrow> n\<lparr>left := q'\<rparr> | RightOf lt a \<Rightarrow> n\<lparr>right := q'\<rparr>)"
    and "\<And>a. a \<in> set (before (f # c)) \<union> set (after (f # c)) \<Longrightarrow> a \<noteq> node_of f \<Longrightarrow> h' a = h a"
  shows "path_at h' q' (f # c) r par"
proof (cases f)
  case (LeftOf a rt)
  from assms(1,3) LeftOf have n: "left n = q" "parent n = top c par"
    "tree_at h (right n) (Ptr a) rt" "path_at h (Ptr a) c r par"
    by auto
  from assms(2) LeftOf have d: "a \<notin> set (inorder rt)" "a \<notin> set (before c) \<union> set (after c)"
    by auto
  have "tree_at h' (right n) (Ptr a) rt"
    by (rule tree_at_frame [OF n(3)]) (use assms(5) d LeftOf in auto)
  moreover have "path_at h' (Ptr a) c r par"
    by (rule path_at_frame [OF n(4)]) (use assms(5) d LeftOf in auto)
  ultimately show ?thesis using n assms(4) LeftOf by simp
next
  case (RightOf lt a)
  from assms(1,3) RightOf have n: "right n = q" "parent n = top c par"
    "tree_at h (left n) (Ptr a) lt" "path_at h (Ptr a) c r par"
    by auto
  from assms(2) RightOf have d: "a \<notin> set (inorder lt)" "a \<notin> set (before c) \<union> set (after c)"
    by auto
  have "tree_at h' (left n) (Ptr a) lt"
    by (rule tree_at_frame [OF n(3)]) (use assms(5) d RightOf in auto)
  moreover have "path_at h' (Ptr a) c r par"
    by (rule path_at_frame [OF n(4)]) (use assms(5) d RightOf in auto)
  ultimately show ?thesis using n assms(4) RightOf by simp
qed

lemma insert_loop_ctx:
  "tree_at h x (top c Null) t \<Longrightarrow> path_at h x c r Null \<Longrightarrow> keys_ascending h t \<Longrightarrow>
   k \<notin> key_of h ` set (inorder t) \<Longrightarrow>
   (\<forall>b \<in> set (before c). key_of h b < k) \<Longrightarrow> (\<forall>b \<in> set (after c). k < key_of h b) \<Longrightarrow>
   \<exists>c'. insert_loop h k (top c Null) x = Some (Inr (top c' Null)) \<and>
      path_at h Null c' r Null \<and> plug c' Leaf = plug c t \<and>
      (\<forall>b \<in> set (before c'). key_of h b < k) \<and> (\<forall>b \<in> set (after c'). k < key_of h b)"
proof (induction t arbitrary: x c)
  case Leaf
  then have "insert_loop h k (top c Null) x = Some (Inr (top c Null))"
    by (subst insert_loop.simps) simp
  with Leaf show ?case by (intro exI [of _ c]) simp
next
  case (Node l a rt)
  from Node.prems(1) obtain n where n: "x = Ptr a" "h a = Some n" "parent n = top c Null"
    "tree_at h (left n) (Ptr a) l" "tree_at h (right n) (Ptr a) rt"
    by (rule tree_at_NodeE)
  from Node.prems(3) have s: "keys_ascending h l" "keys_ascending h rt"
    "\<forall>b \<in> set (inorder l). key_of h b < key_of h a"
    "\<forall>b \<in> set (inorder rt). key_of h a < key_of h b"
    by (auto simp: keys_ascending_def sorted_wrt_append)
  from Node.prems(4) have ne: "k \<noteq> key_of h a" "k \<notin> key_of h ` set (inorder l)"
    "k \<notin> key_of h ` set (inorder rt)" by auto
  have ka: "key n = key_of h a" using n(2) by (simp add: key_of_def)
  show ?case
  proof (cases "k < key_of h a")
    case True
    let ?c = "LeftOf a rt # c"
    have 1: "tree_at h (left n) (top ?c Null) l" using n(4) by simp
    have 2: "path_at h (left n) ?c r Null" using n Node.prems(2) by simp
    have 3: "\<forall>b \<in> set (before ?c). key_of h b < k" using Node.prems(5) by simp
    have 4: "\<forall>b \<in> set (after ?c). k < key_of h b"
      using Node.prems(6) True s(4) by auto
    from Node.IH(1) [OF 1 2 s(1) ne(2) 3 4] obtain c' where
      c': "insert_loop h k (top ?c Null) (left n) = Some (Inr (top c' Null))"
        "path_at h Null c' r Null" "plug c' Leaf = plug ?c l"
        "\<forall>b \<in> set (before c'). key_of h b < k" "\<forall>b \<in> set (after c'). k < key_of h b"
      by blast
    have "insert_loop h k (top c Null) x = Some (Inr (top c' Null))"
      using n(1,2) True ka c'(1) by (subst insert_loop.simps) simp
    with c' show ?thesis by (intro exI [of _ c']) simp
  next
    case False
    with ne(1) have gt: "key_of h a < k" by simp
    let ?c = "RightOf l a # c"
    have 1: "tree_at h (right n) (top ?c Null) rt" using n(5) by simp
    have 2: "path_at h (right n) ?c r Null" using n Node.prems(2) by simp
    have 3: "\<forall>b \<in> set (before ?c). key_of h b < k"
      using Node.prems(5) gt s(3) by auto
    have 4: "\<forall>b \<in> set (after ?c). k < key_of h b" using Node.prems(6) by simp
    from Node.IH(2) [OF 1 2 s(2) ne(3) 3 4] obtain c' where
      c': "insert_loop h k (top ?c Null) (right n) = Some (Inr (top c' Null))"
        "path_at h Null c' r Null" "plug c' Leaf = plug ?c rt"
        "\<forall>b \<in> set (before c'). key_of h b < k" "\<forall>b \<in> set (after c'). k < key_of h b"
      by blast
    have "insert_loop h k (top c Null) x = Some (Inr (top c' Null))"
      using n(1,2) False gt ka c'(1) by (subst insert_loop.simps) simp
    with c' show ?thesis by (intro exI [of _ c']) simp
  qed
qed

lemma kv_key_val:
  "map_option kv (h' a) = map_option kv (h a) \<Longrightarrow> key_of h' a = key_of h a \<and> val_of h' a = val_of h a"
  by (cases "h a"; cases "h' a") (auto simp: kv_def key_of_def val_of_def)

lemma same_kv_key_of: "same_kv h h' \<Longrightarrow> key_of h' a = key_of h a"
  and same_kv_val_of: "same_kv h h' \<Longrightarrow> val_of h' a = val_of h a"
  using kv_key_val [of h' a h] by (auto simp: same_kv_def)

lemma same_kv_live: "same_kv h h' \<Longrightarrow> h' a = None \<longleftrightarrow> h a = None"
  unfolding same_kv_def by (metis map_option_is_None)

lemma path_at_live:
  "path_at h q c r par \<Longrightarrow> a \<in> set (before c) \<union> set (after c) \<Longrightarrow> h a \<noteq> None"
proof (induction h q c r par rule: path_at.induct)
  case (1 h p q par)
  then show ?case by simp
next
  case (2 h p b rt c q par)
  then show ?case by (auto split: option.splits dest: tree_at_live)
next
  case (3 h p lt b c q par)
  then show ?case by (auto split: option.splits dest: tree_at_live)
qed

lemma sorted_insert_mid:
  assumes "sorted_wrt (<) (map f (xs @ ys))" "\<forall>b \<in> set xs. f b < k" "\<forall>b \<in> set ys. k < f b"
    "\<forall>b \<in> set xs \<union> set ys. g b = f b" "g z = (k :: 'k :: linorder)"
  shows "sorted_wrt (<) (map g (xs @ [z] @ ys))"
proof -
  have m: "map g xs = map f xs" "map g ys = map f ys"
    using assms(4) by (auto intro: map_cong)
  have eq: "map g (xs @ [z] @ ys) = map f xs @ [k] @ map f ys"
    by (simp add: m assms(5))
  have "sorted_wrt (<) (map f xs @ [k] @ map f ys)"
    using assms(1,2,3) by (auto simp: sorted_wrt_append)
  then show ?thesis unfolding eq .
qed

section \<open>The invariant at the interface\<close>

lemma view_put [simp]: "view this (put this s w) = s"
  by (simp add: view_def put_def)

lemma map_inv_holds: "map_inv this w t \<Longrightarrow> holds_tree this w t"
  by (simp add: map_inv_def rbt_inv_def holds_tree_def)

lemma key_of_view [simp]: "key_of (heap (view this w)) = key_of (cells w)"
  by simp

section \<open>Recolourings and rotations keep the tree\<close>

lemma inside_Null [simp]: "inside L Null"
  by (simp add: inside_def)

lemma inside_Ptr [simp]: "inside L (Ptr a) \<longleftrightarrow> a \<in> set L"
  by (simp add: inside_def)

lemma keeps_refl [simp]: "keeps s s"
  by (simp add: keeps_def)

lemma keeps_trans: "keeps s1 s2 \<Longrightarrow> keeps s2 s3 \<Longrightarrow> keeps s1 s3"
  using same_kv_trans by (fastforce simp: keeps_def)

lemma stays_set_color:
  assumes "stays s0 L s" "set_color p c s = Some s'"
  shows "stays s0 L s'"
proof -
  from assms(2) obtain a n where p: "p = Ptr a" "heap s a = Some n"
    by (auto simp: set_color_def upd_def split: ptr.splits option.splits)
  with assms(2) have s': "s' = s\<lparr>heap := recolor (heap s) a c\<rparr>"
    by (simp add: set_color_live)
  show ?thesis using assms(1) by (simp add: stays_def keeps_def s')
qed

lemma tree_at_inside:
  "tree_at h p par t \<Longrightarrow> inside (inorder t) p"
  by (cases t) (auto split: option.splits)

lemma tree_at_closed:
  "tree_at h p par t \<Longrightarrow> a \<in> set (inorder t) \<Longrightarrow> h a = Some n \<Longrightarrow>
   inside (inorder t) (left n) \<and> inside (inorder t) (right n) \<and>
   (parent n = par \<or> inside (inorder t) (parent n))"
proof (induction t arbitrary: p par)
  case Leaf
  then show ?case by simp
next
  case (Node l x r)
  from Node.prems(1) obtain xn where x: "p = Ptr x" "h x = Some xn" "parent xn = par"
    "tree_at h (left xn) (Ptr x) l" "tree_at h (right xn) (Ptr x) r"
    by (rule tree_at_NodeE)
  have mono: "\<And>q. inside (inorder l) q \<Longrightarrow> inside (inorder (Node l x r)) q"
    "\<And>q. inside (inorder r) q \<Longrightarrow> inside (inorder (Node l x r)) q"
    by (auto simp: inside_def split: ptr.splits)
  consider "a = x" | "a \<in> set (inorder l)" | "a \<in> set (inorder r)"
    using Node.prems(2) by auto
  then show ?case
  proof cases
    case 1
    with x Node.prems(3) tree_at_inside [OF x(4)] tree_at_inside [OF x(5)] mono
    show ?thesis by auto
  next
    case 2
    from Node.IH(1) [OF x(4) 2 Node.prems(3)] mono show ?thesis by auto
  next
    case 3
    from Node.IH(2) [OF x(5) 3 Node.prems(3)] mono show ?thesis by auto
  qed
qed

lemma stays_node:
  assumes "stays s0 L s" "node_at s p = Some n" "inside L p"
  shows "inside L (left n) \<and> inside L (right n) \<and> inside L (parent n)"
proof -
  from assms(2) obtain a where p: "p = Ptr a" "heap s a = Some n"
    by (auto simp: node_at_def split: ptr.splits)
  from assms(1) obtain t where t: "tree_at (heap s) (root s) Null t" "inorder t = L"
    by (auto simp: stays_def)
  from tree_at_closed [OF t(1) _ p(2)] assms(3) p t(2) show ?thesis by auto
qed

lemma stays_root: "stays s0 L s \<Longrightarrow> inside L (root s)"
  using tree_at_inside by (auto simp: stays_def)

lemma stays_leftRotate:
  assumes "stays s0 L s" "leftRotate p s = Some s'" "inside L p"
  shows "stays s0 L s'"
proof -
  from assms(2) obtain x xn where p: "p = Ptr x" "heap s x = Some xn"
    by (auto simp: leftRotate_def node_at_def split: ptr.splits Option.bind_splits)
  from assms(2) p obtain y where y: "right xn = Ptr y"
    by (cases "right xn") (auto simp: leftRotate_def node_at_def Let_def)
  from assms(1) obtain t where t: "tree_at (heap s) (root s) Null t" "inorder t = L" "distinct L"
    by (auto simp: stays_def)
  from assms(3) p t(2) have "x \<in> set (inorder t)" by simp
  from split_shape [OF this] obtain c l r where c: "t = plug c (Node l x r)" by blast
  from t(1) [unfolded c tree_at_plug] obtain q where
    q: "tree_at (heap s) q (top c Null) (Node l x r)" "path_at (heap s) q c (root s) Null"
    by blast
  from q(1) have qx: "q = Ptr x" by simp
  from q(1) p(2) y obtain tb tc where r: "r = Node tb y tc"
    by (cases r) (auto simp: qx)
  from leftRotate_ctx [OF q(1) [unfolded qx r] q(2) [unfolded qx]] t(2,3) c r
  obtain s'' where s'': "leftRotate (Ptr x) s = Some s''"
    "tree_at (heap s'') (Ptr y) (top c Null) (Node (Node l x tb) y tc)"
    "path_at (heap s'') (Ptr y) c (root s'') Null" "same_data (heap s) (heap s'')"
    "nxt s'' = nxt s" "map_size s'' = map_size s" "end_node s'' = end_node s"
    by auto
  from s''(1) assms(2) p have e: "s'' = s'" by simp
  from s''(2,3) have "tree_at (heap s') (root s') Null (plug c (Node (Node l x tb) y tc))"
    unfolding tree_at_plug e by blast
  moreover have "inorder (plug c (Node (Node l x tb) y tc)) = L"
    using t(2) by (simp add: c r inorder_plug)
  moreover have "keeps s s'"
    using s''(4-) same_data_kv by (auto simp: keeps_def e)
  ultimately show ?thesis
    using assms(1) keeps_trans by (auto simp: stays_def)
qed

lemma stays_rightRotate:
  assumes "stays s0 L s" "rightRotate p s = Some s'" "inside L p"
  shows "stays s0 L s'"
proof -
  from assms(2) obtain x xn where p: "p = Ptr x" "heap s x = Some xn"
    by (auto simp: rightRotate_def node_at_def split: ptr.splits Option.bind_splits)
  from assms(2) p obtain y where y: "left xn = Ptr y"
    by (cases "left xn") (auto simp: rightRotate_def node_at_def Let_def)
  from assms(1) obtain t where t: "tree_at (heap s) (root s) Null t" "inorder t = L" "distinct L"
    by (auto simp: stays_def)
  from assms(3) p t(2) have "x \<in> set (inorder t)" by simp
  from split_shape [OF this] obtain c l r where c: "t = plug c (Node l x r)" by blast
  from t(1) [unfolded c tree_at_plug] obtain q where
    q: "tree_at (heap s) q (top c Null) (Node l x r)" "path_at (heap s) q c (root s) Null"
    by blast
  from q(1) have qx: "q = Ptr x" by simp
  from q(1) p(2) y obtain ta tb where r: "l = Node ta y tb"
    by (cases l) (auto simp: qx)
  from rightRotate_ctx [OF q(1) [unfolded qx r] q(2) [unfolded qx]] t(2,3) c r
  obtain s'' where s'': "rightRotate (Ptr x) s = Some s''"
    "tree_at (heap s'') (Ptr y) (top c Null) (Node ta y (Node tb x r))"
    "path_at (heap s'') (Ptr y) c (root s'') Null" "same_data (heap s) (heap s'')"
    "nxt s'' = nxt s" "map_size s'' = map_size s" "end_node s'' = end_node s"
    by auto
  from s''(1) assms(2) p have e: "s'' = s'" by simp
  from s''(2,3) have "tree_at (heap s') (root s') Null (plug c (Node ta y (Node tb x r)))"
    unfolding tree_at_plug e by blast
  moreover have "inorder (plug c (Node ta y (Node tb x r))) = L"
    using t(2) by (simp add: c r inorder_plug)
  moreover have "keeps s s'"
    using s''(4-) same_data_kv by (auto simp: keeps_def e)
  ultimately show ?thesis
    using assms(1) keeps_trans by (auto simp: stays_def)
qed

lemma fine_None: "fine R None"
  by (simp add: fine_def)

lemma fine_Some: "R r \<Longrightarrow> fine R (Some r)"
  by (simp add: fine_def)

lemma fine_both: "stays s0 L s \<Longrightarrow> inside L x \<Longrightarrow> fine (both s0 L) (Some (x, s))"
  by (simp add: fine_def both_def)

lemma fine_stays: "stays s0 L s \<Longrightarrow> fine (stays s0 L) (Some s)"
  by (simp add: fine_def)

lemma fine_if: "(c \<Longrightarrow> fine R a) \<Longrightarrow> (\<not> c \<Longrightarrow> fine R b) \<Longrightarrow> fine R (if c then a else b)"
  by simp

lemma fine_set_color: "stays s0 L s \<Longrightarrow> fine (stays s0 L) (set_color p c s)"
  using stays_set_color by (fastforce simp: fine_def)

lemma fine_leftRotate: "stays s0 L s \<Longrightarrow> inside L p \<Longrightarrow> fine (stays s0 L) (leftRotate p s)"
  using stays_leftRotate by (fastforce simp: fine_def)

lemma fine_rightRotate: "stays s0 L s \<Longrightarrow> inside L p \<Longrightarrow> fine (stays s0 L) (rightRotate p s)"
  using stays_rightRotate by (fastforce simp: fine_def)

lemma fine_bind_state:
  "fine (stays s0 L) m \<Longrightarrow> (\<And>s'. stays s0 L s' \<Longrightarrow> fine R (k s')) \<Longrightarrow> fine R (m \<bind> k)"
  by (auto simp: fine_def bind_eq_Some_conv)

lemma fine_bind_both:
  "fine (both s0 L) m \<Longrightarrow> (\<And>x s'. stays s0 L s' \<Longrightarrow> inside L x \<Longrightarrow> fine R (k x s')) \<Longrightarrow>
   fine R (m \<bind> case_prod k)"
  by (auto simp: fine_def both_def bind_eq_Some_conv)

lemma fine_bind_node:
  "stays s0 L s \<Longrightarrow> inside L p \<Longrightarrow>
   (\<And>n. inside L (left n) \<Longrightarrow> inside L (right n) \<Longrightarrow> inside L (parent n) \<Longrightarrow> fine R (k n)) \<Longrightarrow>
   fine R (node_at s p \<bind> k)"
  using stays_node [of s0 L s p] by (auto simp: fine_def bind_eq_Some_conv)

lemma fine_case_node:
  "stays s0 L s \<Longrightarrow> inside L p \<Longrightarrow>
   (\<And>n. inside L (left n) \<Longrightarrow> inside L (right n) \<Longrightarrow> inside L (parent n) \<Longrightarrow> fine R (k n)) \<Longrightarrow>
   fine R (case node_at s p of None \<Rightarrow> None | Some n \<Rightarrow> k n)"
  using stays_node [of s0 L s p] by (auto simp: fine_def split: option.splits)

lemma fine_bind_is_red:
  "(\<And>b. fine R (k b)) \<Longrightarrow> fine R (is_red s p \<bind> k)"
  by (auto simp: fine_def bind_eq_Some_conv)

lemmas fine_rules = fine_None fine_both fine_stays fine_if fine_set_color fine_leftRotate
  fine_rightRotate fine_bind_is_red

lemma fineD: "m = Some r \<Longrightarrow> fine R m \<Longrightarrow> R r"
  by (simp add: fine_def)

lemma fixDelete_loop_stays:
  assumes "fixDelete_loop x s = Some r"
  shows "stays s0 L s \<longrightarrow> inside L x \<longrightarrow> both s0 L r"
proof (rule fixDelete_loop.raw_induct [where xa = "(x, s)" and y = r and
      P = "\<lambda>x s r. stays s0 L s \<longrightarrow> inside L x \<longrightarrow> both s0 L r", simplified], goal_cases)
  case (1 f x s r)
  have ih: "\<And>x s. stays s0 L s \<Longrightarrow> inside L x \<Longrightarrow> fine (both s0 L) (f x s)"
    using 1(1) by (auto simp: fine_def)
  show ?case
  proof (intro impI)
    assume st: "stays s0 L s" "inside L x"
    show "both s0 L r"
      apply (rule fineD [OF 1(2)])
      unfolding Let_def
      by (intro fine_rules fine_bind_state [of s0 L] fine_bind_both [of s0 L]
          fine_bind_node [of s0 L] fine_case_node [of s0 L] stays_root [of s0 L] ih st; assumption)
  qed
next
  case 2
  show ?case by (rule assms)
qed

lemma fixDelete_stays:
  assumes "fixDelete x s = Some s'" "stays s0 L s" "inside L x"
  shows "stays s0 L s'"
proof -
  from assms(1) obtain x1 s1 where l: "fixDelete_loop x s = Some (x1, s1)"
    and c: "(if x1 \<noteq> Null then set_color x1 False s1 else Some s1) = Some s'"
    by (auto simp: fixDelete_def bind_eq_Some_conv)
  from fixDelete_loop_stays [OF l, of s0 L] assms(2,3) have "stays s0 L s1"
    by (simp add: both_def)
  with c stays_set_color show ?thesis
    by (auto split: if_splits)
qed

lemma fixInsert_loop_stays:
  assumes "fixInsert_loop z s = Some r"
  shows "stays s0 L s \<longrightarrow> inside L z \<longrightarrow> stays s0 L r"
proof (rule fixInsert_loop.raw_induct [where z = z and s = s and y = r and
      P = "\<lambda>z s r. stays s0 L s \<longrightarrow> inside L z \<longrightarrow> stays s0 L r"], goal_cases)
  case (1 f z s r)
  have ih: "\<And>z s. stays s0 L s \<Longrightarrow> inside L z \<Longrightarrow> fine (stays s0 L) (f z s)"
    using 1(1) by (auto simp: fine_def)
  show ?case
  proof (intro impI)
    assume st: "stays s0 L s" "inside L z"
    show "stays s0 L r"
      apply (rule fineD [OF 1(2)])
      unfolding Let_def
      by (intro fine_rules fine_bind_state [of s0 L] fine_bind_both [of s0 L]
          fine_bind_node [of s0 L] fine_case_node [of s0 L] stays_root [of s0 L] ih st; assumption)
  qed
next
  case 2
  show ?case by (rule assms)
qed

lemma fixInsert_stays:
  assumes "fixInsert z s = Some s'" "stays s0 L s" "inside L z"
  shows "stays s0 L s'"
proof -
  from assms(1) obtain s1 where l: "fixInsert_loop z s = Some s1"
    and c: "set_color (root s1) False s1 = Some s'"
    by (auto simp: fixInsert_def bind_eq_Some_conv)
  from fixInsert_loop_stays [OF l, of s0 L] assms(2,3) have "stays s0 L s1"
    by simp
  with c stays_set_color show ?thesis
    by blast
qed

section \<open>Insertion of a new key\<close>

lemma insertNode_gen:
  fixes s :: "('k::linorder, 'v) rbt"
  assumes T: "tree_at (heap s) (root s) Null t" and K: "keys_ascending (heap s) t"
    and G: "black_root s \<or> insertNode (k, v) s \<noteq> None" and A: "\<And>a. heap s a \<noteq> None \<Longrightarrow> a < nxt s"
    and N: "k \<notin> key_of (heap s) ` set (inorder t)"
  shows "\<exists>s' t'. insertNode (k, v) s = Some (Ptr (nxt s), s') \<and>
      tree_at (heap s') (root s') Null t' \<and> keys_ascending (heap s') t' \<and>
      (black_root s \<longrightarrow> black_root s') \<and>
      (\<forall>a. heap s' a \<noteq> None \<longrightarrow> a < nxt s') \<and>
      (\<exists>xs ys. inorder t = xs @ ys \<and> inorder t' = xs @ [nxt s] @ ys) \<and>
      nxt s \<notin> set (inorder t) \<and>
      key_of (heap s') (nxt s) = k \<and> val_of (heap s') (nxt s) = v \<and>
      (\<forall>a. a \<noteq> nxt s \<longrightarrow> map_option kv (heap s' a) = map_option kv (heap s a)) \<and>
      map_size s' = map_size s + 1 \<and> nxt s' = Suc (nxt s) \<and> end_node s' = end_node s"
proof -
  define z where "z = nxt s"
  have P0: "path_at (heap s) (root s) [] (root s) Null" by simp
  from insert_loop_ctx [of "heap s" "root s" "[]" t "root s" k] T K N P0
  obtain c where c: "insert_loop (heap s) k Null (root s) = Some (Inr (top c Null))"
    "path_at (heap s) Null c (root s) Null" "plug c Leaf = t"
    "\<forall>b \<in> set (before c). key_of (heap s) b < k" "\<forall>b \<in> set (after c). k < key_of (heap s) b"
    by auto
  have io: "inorder t = before c @ after c" using c(3) [symmetric] by (simp add: inorder_plug)
  have fresh: "heap s z = None" using A [of z] by (cases "heap s z") (auto simp: z_def)
  have live: "heap s a \<noteq> None" if "a \<in> set (before c) \<union> set (after c)" for a
    using path_at_live [OF c(2) that] .
  have zc: "z \<notin> set (before c) \<union> set (after c)" using live [of z] fresh by auto
  have dc: "distinct (before c @ after c)"
    using keys_ascending_distinct [OF K] io by simp
  define N0 where "N0 = \<lparr>key = k, val = v, left = Null, right = Null, parent = top c Null, color = True\<rparr>"
  define s1 where "s1 = s\<lparr>heap := (heap s)(z \<mapsto> N0), nxt := Suc z\<rparr>"
  have e1: "new_Node (k, v) (top c Null) s = (Ptr z, s1)"
    by (simp add: new_Node_def s1_def N0_def z_def)
  have "\<exists>s2. (if top c Null = Null then Some (s1\<lparr>root := Ptr z\<rparr>)
          else do {
            yn \<leftarrow> node_at s1 (top c Null);
            if k < key yn then set_left (top c Null) (Ptr z) s1 else set_right (top c Null) (Ptr z) s1
          }) = Some s2 \<and> at_hole s2 z c (Node Leaf z Leaf) \<and> nxt s2 = Suc z \<and>
        map_size s2 = map_size s \<and> end_node s2 = end_node s \<and>
        heap s2 z = Some N0 \<and>
        (\<forall>a. a \<noteq> z \<longrightarrow> map_option data (heap s2 a) = map_option data (heap s a)) \<and>
        (c \<noteq> [] \<longrightarrow> root s2 = root s)"
  proof (cases c)
    case Nil
    let ?s2 = "s1\<lparr>root := Ptr z\<rparr>"
    have "at_hole ?s2 z [] (Node Leaf z Leaf)"
      by (simp add: at_hole_def s1_def N0_def Nil)
    then show ?thesis using Nil by (simp add: s1_def)
  next
    case (Cons f c')
    define y where "y = node_of f"
    have yc: "y \<in> set (before c) \<union> set (after c)"
      unfolding Cons y_def by (cases f) auto
    from live [OF yc] obtain yn where yn: "heap s y = Some yn" by auto
    from yc zc have yz: "y \<noteq> z" by auto
    define yn' where "yn' = (case f of LeftOf a rt \<Rightarrow> yn\<lparr>left := Ptr z\<rparr> | RightOf lt a \<Rightarrow> yn\<lparr>right := Ptr z\<rparr>)"
    define s2 where "s2 = s1\<lparr>heap := (heap s1)(y \<mapsto> yn')\<rparr>"
    have ky: "key yn = key_of (heap s) y" using yn by (simp add: key_of_def)
    have e2: "(if k < key yn then set_left (Ptr y) (Ptr z) s1 else set_right (Ptr y) (Ptr z) s1) = Some s2"
    proof (cases f)
      case (LeftOf a rt)
      with Cons c(5) have "k < key_of (heap s) y" by (simp add: y_def)
      with ky yn yz LeftOf show ?thesis
        by (simp add: set_left_def upd_def s1_def s2_def yn'_def)
    next
      case (RightOf lt a)
      with Cons c(4) have "key_of (heap s) y < k" by (simp add: y_def)
      then have "\<not> k < key_of (heap s) y" by (simp add: not_less order.strict_implies_order)
      with ky yn yz RightOf show ?thesis
        by (simp add: set_right_def upd_def s1_def s2_def yn'_def)
    qed
    have h2: "heap s2 z = Some N0" "heap s2 y = Some yn'"
      "\<And>a. a \<noteq> z \<Longrightarrow> a \<noteq> y \<Longrightarrow> heap s2 a = heap s a"
      using yz by (simp_all add: s2_def s1_def)
    have tz: "tree_at (heap s2) (Ptr z) (top c Null) (Node Leaf z Leaf)"
      using h2(1) by (simp add: N0_def)
    have h2o: "heap s2 a = heap s a"
      if "a \<in> set (before (f # c')) \<union> set (after (f # c'))" "a \<noteq> node_of f" for a
    proof -
      from that(1) zc Cons have "a \<noteq> z" by auto
      with that(2) show ?thesis by (intro h2(3)) (simp_all add: y_def)
    qed
    have pz: "path_at (heap s2) (Ptr z) (f # c') (root s) Null"
      by (rule path_at_attach [OF c(2) [unfolded Cons] dc [unfolded Cons] yn [unfolded y_def]])
         (use h2(2) h2o in \<open>auto simp: y_def yn'_def\<close>)
    have dz: "distinct (inorder (plug c (Node Leaf z Leaf)))"
      using dc zc by (auto simp: inorder_plug)
    have rs: "root s2 = root s" by (simp add: s2_def s1_def)
    have ah: "at_hole s2 z c (Node Leaf z Leaf)"
      using tz pz dz rs by (simp add: at_hole_def Cons)
    have dt: "map_option data (heap s2 a) = map_option data (heap s a)" if "a \<noteq> z" for a
      using that h2(2) h2(3) [of a] yn by (cases "a = y"; cases f) (auto simp: yn'_def data_def)
    have na: "node_at s1 (Ptr y) = Some yn" using yn yz by (simp add: node_at_def s1_def)
    have nx: "nxt s2 = Suc z" "map_size s2 = map_size s" "end_node s2 = end_node s"
      by (simp_all add: s2_def s1_def)
    show ?thesis
      using e2 [unfolded y_def] na [unfolded y_def] ah dt h2(1) rs nx
      by (intro exI [of _ s2]) (simp add: Cons split: if_splits)
  qed
  then obtain s2 where s2: "(if top c Null = Null then Some (s1\<lparr>root := Ptr z\<rparr>)
          else do {
            yn \<leftarrow> node_at s1 (top c Null);
            if k < key yn then set_left (top c Null) (Ptr z) s1 else set_right (top c Null) (Ptr z) s1
          }) = Some s2" "at_hole s2 z c (Node Leaf z Leaf)" "nxt s2 = Suc z"
        "map_size s2 = map_size s" "end_node s2 = end_node s" "heap s2 z = Some N0"
        "\<And>a. a \<noteq> z \<Longrightarrow> map_option data (heap s2 a) = map_option data (heap s a)"
        "c \<noteq> [] \<longrightarrow> root s2 = root s"
    by blast
  have F: "\<exists>s3 t3. fixInsert (Ptr z) s2 = Some s3 \<and> tree_at (heap s3) (root s3) Null t3 \<and>
      inorder t3 = inorder (plug c (Node Leaf z Leaf)) \<and> same_kv (heap s2) (heap s3) \<and>
      (black_root s \<longrightarrow> black_root s3) \<and>
      nxt s3 = nxt s2 \<and> map_size s3 = map_size s2 \<and> end_node s3 = end_node s2"
  proof (cases "black_root s")
    case True
    have b2: "c \<noteq> [] \<longrightarrow> black_root s2"
    proof
      assume ne: "c \<noteq> []"
      from path_at_root [OF c(2) ne] obtain a where a: "root s = Ptr a"
        "a \<in> set (before c) \<union> set (after c)" by blast
      with zc have "a \<noteq> z" by auto
      from s2(7) [OF this] have "red (heap s2) a = red (heap s) a"
        by (cases "heap s a"; cases "heap s2 a") (auto simp: red_def data_def)
      with True a(1) s2(8) ne show "black_root s2" by (simp add: black_root_def)
    qed
    from fixInsert_total [OF s2(2) b2] show ?thesis by blast
  next
    case False
    with G have "insertNode (k, v) s \<noteq> None" by simp
    then obtain s3 where f: "fixInsert (Ptr z) s2 = Some s3"
      using c(1) e1 s2(1) by (auto simp: insertNode_def split: if_splits Option.bind_splits)
    have "stays s2 (inorder (plug c (Node Leaf z Leaf))) s2"
      using at_hole_tree [OF s2(2)] s2(2) by (auto simp: stays_def at_hole_def)
    moreover have "inside (inorder (plug c (Node Leaf z Leaf))) (Ptr z)"
      by (simp add: inorder_plug)
    ultimately have "stays s2 (inorder (plug c (Node Leaf z Leaf))) s3"
      by (rule fixInsert_stays [OF f])
    with f False show ?thesis by (auto simp: stays_def keeps_def)
  qed
  then obtain s3 t3 where
    s3: "fixInsert (Ptr z) s2 = Some s3" "tree_at (heap s3) (root s3) Null t3"
      "inorder t3 = inorder (plug c (Node Leaf z Leaf))" "same_kv (heap s2) (heap s3)"
      "black_root s \<longrightarrow> black_root s3" "nxt s3 = nxt s2" "map_size s3 = map_size s2"
      "end_node s3 = end_node s2"
    by blast
  let ?s4 = "s3\<lparr>map_size := map_size s3 + 1\<rparr>"
  have r: "insertNode (k, v) s = Some (Ptr z, ?s4)"
    using c(1) e1 s2(1) s3(1) by (auto simp: insertNode_def split: if_splits Option.bind_splits)
  have i3: "inorder t3 = before c @ [z] @ after c" using s3(3) by (simp add: inorder_plug)
  have kvo: "map_option kv (heap s3 a) = map_option kv (heap s a)" if "a \<noteq> z" for a
  proof -
    from s2(7) [OF that] have "map_option kv (heap s2 a) = map_option kv (heap s a)"
      by (cases "heap s a"; cases "heap s2 a") (auto simp: data_def kv_def)
    with s3(4) show ?thesis by (simp add: same_kv_def)
  qed
  have kz: "key_of (heap s3) z = k" "val_of (heap s3) z = v"
    using same_kv_key_of [OF s3(4), of z] same_kv_val_of [OF s3(4), of z] s2(6)
    by (simp_all add: key_of_def val_of_def N0_def)
  have ko: "key_of (heap s3) a = key_of (heap s) a" if "a \<noteq> z" for a
    using kv_key_val [of "heap s3" a "heap s"] kvo [OF that] by simp
  have kob: "\<forall>b \<in> set (before c) \<union> set (after c). key_of (heap s3) b = key_of (heap s) b"
  proof
    fix b assume "b \<in> set (before c) \<union> set (after c)"
    with zc have "b \<noteq> z" by auto
    then show "key_of (heap s3) b = key_of (heap s) b" by (rule ko)
  qed
  have srt: "sorted_wrt (<) (map (key_of (heap s)) (before c @ after c))"
    using K io by (simp add: keys_ascending_def)
  have K3: "keys_ascending (heap s3) t3"
    unfolding keys_ascending_def i3
    by (rule sorted_insert_mid [OF srt c(4) c(5) kob kz(1)])
  have A3: "\<forall>a. heap s3 a \<noteq> None \<longrightarrow> a < nxt s3"
  proof (intro allI impI)
    fix a assume "heap s3 a \<noteq> None"
    then have l2: "heap s2 a \<noteq> None" using same_kv_live [OF s3(4), of a] by simp
    show "a < nxt s3"
    proof (cases "a = z")
      case True
      then show ?thesis by (simp add: s3(6) s2(3))
    next
      case False
      from s2(7) [OF this] l2 have "heap s a \<noteq> None" by (cases "heap s a") auto
      from A [OF this] show ?thesis by (simp add: s3(6) s2(3) z_def)
    qed
  qed
  have zt: "z \<notin> set (inorder t)" using zc io by simp
  have B4: "black_root s \<longrightarrow> black_root ?s4"
    using s3(5) by (simp add: black_root_def split: ptr.splits)
  have X: "\<exists>xs ys. inorder t = xs @ ys \<and> inorder t3 = xs @ [z] @ ys"
    using io i3 by blast
  have kvo': "\<forall>a. a \<noteq> z \<longrightarrow> map_option kv (heap s3 a) = map_option kv (heap s a)"
    using kvo by blast
  show ?thesis
    unfolding z_def [symmetric]
    by (intro exI [of _ ?s4] exI [of _ t3])
       (use r s3(2,6,7,8) K3 A3 X zt kz kvo' s2(3,4,5) B4 in simp)
qed

lemma insertNode_new:
  fixes s :: "('k::linorder, 'v) rbt"
  assumes T: "tree_at (heap s) (root s) Null t" and K: "keys_ascending (heap s) t"
    and B: "black_root s" and A: "\<And>a. heap s a \<noteq> None \<Longrightarrow> a < nxt s"
    and N: "k \<notin> key_of (heap s) ` set (inorder t)"
  shows "\<exists>s' t'. insertNode (k, v) s = Some (Ptr (nxt s), s') \<and>
      tree_at (heap s') (root s') Null t' \<and> keys_ascending (heap s') t' \<and> black_root s' \<and>
      (\<forall>a. heap s' a \<noteq> None \<longrightarrow> a < nxt s') \<and>
      (\<exists>xs ys. inorder t = xs @ ys \<and> inorder t' = xs @ [nxt s] @ ys) \<and>
      nxt s \<notin> set (inorder t) \<and>
      key_of (heap s') (nxt s) = k \<and> val_of (heap s') (nxt s) = v \<and>
      (\<forall>a. a \<noteq> nxt s \<longrightarrow> map_option kv (heap s' a) = map_option kv (heap s a)) \<and>
      map_size s' = map_size s + 1 \<and> nxt s' = Suc (nxt s) \<and> end_node s' = end_node s"
  using insertNode_gen [OF T K _ A N, of v] B by simp

section \<open>Removal of a node\<close>

lemma transplant_explicit:
  assumes z: "heap s z = Some zn"
    and p: "parent zn = Null \<or> (\<exists>p pn. parent zn = Ptr p \<and> heap s p = Some pn \<and> p \<noteq> z)"
    and v: "v = Null \<or> (\<exists>a vn. v = Ptr a \<and> heap s a = Some vn \<and> a \<noteq> z \<and> Ptr a \<noteq> parent zn)"
  shows "\<exists>s'. transplant (Ptr z) v s = Some s' \<and>
      root s' = (if parent zn = Null then v else root s) \<and>
      heap s' z = Some zn \<and>
      (\<forall>p pn. parent zn = Ptr p \<longrightarrow> heap s p = Some pn \<longrightarrow>
          heap s' p = Some (relinkL (Ptr z) v pn)) \<and>
      (\<forall>a vn. v = Ptr a \<longrightarrow> heap s a = Some vn \<longrightarrow> heap s' a = Some (vn\<lparr>parent := parent zn\<rparr>)) \<and>
      (\<forall>a. Ptr a \<noteq> v \<longrightarrow> Ptr a \<noteq> parent zn \<longrightarrow> heap s' a = heap s a) \<and>
      nxt s' = nxt s \<and> map_size s' = map_size s \<and> end_node s' = end_node s"
  using assms
  by (auto simp: transplant_def node_at_def set_left_def set_right_def set_parent_def upd_def
      relinkL_def)

lemma transplant_ctx:
  assumes z: "heap s z = Some zn" "parent zn = top c Null"
    and c: "path_at (heap s) (Ptr z) c (root s) Null"
    and v: "tree_at (heap s) v pv tv"
    and d: "distinct (before c @ after c)" "z \<notin> set (before c) \<union> set (after c)"
      "distinct (inorder tv)" "z \<notin> set (inorder tv)"
      "set (inorder tv) \<inter> (set (before c) \<union> set (after c)) = {}"
  shows "\<exists>s'. transplant (Ptr z) v s = Some s' \<and>
      tree_at (heap s') v (top c Null) tv \<and> path_at (heap s') v c (root s') Null \<and>
      heap s' z = Some zn \<and>
      (\<forall>a. Ptr a \<noteq> v \<longrightarrow> Ptr a \<noteq> top c Null \<longrightarrow> heap s' a = heap s a) \<and>
      same_data (heap s) (heap s') \<and>
      nxt s' = nxt s \<and> map_size s' = map_size s \<and> end_node s' = end_node s"
proof -
  have vmem: "a \<in> set (inorder tv)" if "Ptr a = v" for a
    using v that [symmetric] by (simp add: tree_at_root_mem)
  have pmem: "p \<in> set (before c) \<union> set (after c)" if "Ptr p = top c Null" for p
  proof (cases c)
    case Nil
    with that show ?thesis by simp
  next
    case (Cons f c')
    then have "c \<noteq> []" by simp
    from path_at_top [OF c this] that show ?thesis by auto
  qed
  have p: "parent zn = Null \<or> (\<exists>p pn. parent zn = Ptr p \<and> heap s p = Some pn \<and> p \<noteq> z)"
  proof (cases c)
    case Nil
    with z(2) show ?thesis by simp
  next
    case (Cons f c')
    then have "c \<noteq> []" by simp
    from path_at_top [OF c this] obtain p pn where
      "top c Null = Ptr p" "heap s p = Some pn" "p \<in> set (before c) \<union> set (after c)"
      by blast
    with z(2) d(2) show ?thesis by auto
  qed
  have v': "v = Null \<or> (\<exists>a vn. v = Ptr a \<and> heap s a = Some vn \<and> a \<noteq> z \<and> Ptr a \<noteq> parent zn)"
  proof (cases tv)
    case Leaf
    with v show ?thesis by simp
  next
    case (Node l a r)
    with v obtain vn where "v = Ptr a" "heap s a = Some vn"
      by (auto split: option.splits)
    moreover have "a \<noteq> z" using d(4) Node by auto
    moreover have "Ptr a \<noteq> parent zn"
      using pmem [of a] d(5) Node z(2) by auto
    ultimately show ?thesis by blast
  qed
  from transplant_explicit [OF z(1) p v'] obtain s' where
    s': "transplant (Ptr z) v s = Some s'"
      "root s' = (if parent zn = Null then v else root s)"
      "heap s' z = Some zn"
      "\<And>p pn. parent zn = Ptr p \<Longrightarrow> heap s p = Some pn \<Longrightarrow>
          heap s' p = Some (relinkL (Ptr z) v pn)"
      "\<And>a vn. v = Ptr a \<Longrightarrow> heap s a = Some vn \<Longrightarrow> heap s' a = Some (vn\<lparr>parent := parent zn\<rparr>)"
      "\<And>a. Ptr a \<noteq> v \<Longrightarrow> Ptr a \<noteq> parent zn \<Longrightarrow> heap s' a = heap s a"
      "nxt s' = nxt s" "map_size s' = map_size s" "end_node s' = end_node s"
    by blast
  have fv: "heap s' a = (if Ptr a = v then map_option (\<lambda>n. n\<lparr>parent := top c Null\<rparr>) (heap s a) else heap s a)"
    if "a \<in> set (inorder tv)" for a
  proof (cases "Ptr a = v")
    case True
    from tree_at_live [OF v that] obtain vn where "heap s a = Some vn" by blast
    with True s'(5) [of a vn] z(2) show ?thesis by simp
  next
    case False
    then have "heap s' a = heap s a"
      using that d(5) pmem z(2) by (intro s'(6)) auto
    with False show ?thesis by simp
  qed
  have fp: "heap s' a = (if Ptr a = top c Null then map_option (relinkL (Ptr z) v) (heap s a) else heap s a)"
    if "a \<in> set (before c) \<union> set (after c)" for a
  proof (cases "Ptr a = top c Null")
    case True
    from p True z(2) obtain pn where "heap s a = Some pn" by auto
    with True s'(4) [of a pn] z(2) show ?thesis by simp
  next
    case False
    then have "heap s' a = heap s a"
      using that d(5) vmem z(2) by (intro s'(6)) auto
    with False show ?thesis by simp
  qed
  have T: "tree_at (heap s') v (top c Null) tv"
    by (rule tree_at_reparent [OF v d(3)]) (rule fv)
  have "path_at (heap s') v c (if c = [] then v else root s) Null"
    by (rule path_at_relinkL [OF c d(1) d(2)]) (rule fp)
  moreover have "(if c = [] then v else root s) = root s'"
  proof (cases c)
    case Nil
    with z(2) s'(2) show ?thesis by simp
  next
    case (Cons f c')
    then have "c \<noteq> []" by simp
    from path_at_top [OF c this] z(2) s'(2) Cons show ?thesis by auto
  qed
  ultimately have P: "path_at (heap s') v c (root s') Null" by simp
  have D: "same_data (heap s) (heap s')"
    unfolding same_data_def
  proof
    fix a
    consider "Ptr a = v" | "Ptr a \<noteq> v" "Ptr a = parent zn" | "Ptr a \<noteq> v" "Ptr a \<noteq> parent zn"
      by blast
    then show "map_option data (heap s' a) = map_option data (heap s a)"
    proof cases
      case 1
      with v' obtain vn where "heap s a = Some vn" by auto
      with 1 s'(5) [of a vn] show ?thesis by (simp add: data_def)
    next
      case 2
      with p obtain pn where "heap s a = Some pn" by auto
      with 2 s'(4) [of a pn] show ?thesis by (simp add: data_def relinkL_def)
    next
      case 3
      with s'(6) [of a] show ?thesis by simp
    qed
  qed
  have F: "\<forall>a. Ptr a \<noteq> v \<longrightarrow> Ptr a \<noteq> top c Null \<longrightarrow> heap s' a = heap s a"
    using s'(6) z(2) by simp
  from s'(1,3,7,8,9) T P D F show ?thesis by blast
qed

lemma top_append: "c1 \<noteq> [] \<Longrightarrow> top (c1 @ c2) par = top c1 par'"
  by (cases "(c1, par)" rule: top.cases) auto

lemma plug_not_Leaf: "c \<noteq> [] \<Longrightarrow> plug c t \<noteq> Leaf"
proof (induction c arbitrary: t)
  case Nil
  then show ?case by simp
next
  case (Cons f c)
  show ?case
  proof (cases c)
    case Nil
    then show ?thesis by (cases f) auto
  next
    case (Cons g c')
    then have "c \<noteq> []" by simp
    from Cons.IH [OF this] show ?thesis by (cases f) auto
  qed
qed

lemma hd_distinct_split:
  "distinct (pre @ a # post) \<Longrightarrow> hd (pre @ a # post) = a \<Longrightarrow> pre = []"
  by (cases pre) auto

lemma hd_split:
  assumes "t \<noteq> Leaf" "distinct (inorder t)"
  shows "\<exists>a c r. a = hd (inorder t) \<and> t = plug c (Node Leaf a r) \<and> before c = []"
proof -
  from assms(1) have ne: "inorder t \<noteq> []" by (cases t) auto
  then have "hd (inorder t) \<in> set (inorder t)" by simp
  then obtain a where a: "a = hd (inorder t)" "a \<in> set (inorder t)" by blast
  from split_shape [OF a(2)] obtain c l r where c: "t = plug c (Node l a r)"
    by blast
  have i: "inorder t = (before c @ inorder l) @ a # inorder r @ after c"
    by (subst c) (simp add: inorder_plug)
  have d: "distinct ((before c @ inorder l) @ a # inorder r @ after c)"
    using assms(2) unfolding i .
  have h: "hd ((before c @ inorder l) @ a # inorder r @ after c) = a"
    using a(1) unfolding i by (rule sym)
  from hd_distinct_split [OF d h] have "before c @ inorder l = []" .
  then have e: "before c = []" "l = Leaf" by auto
  from c e(2) have "t = plug c (Node Leaf a r)" by simp
  with a(1) e(1) show ?thesis by blast
qed

lemma unlink_finish:
  assumes z: "heap S z = Some zn" "parent zn = top c Null"
    and l: "tree_at (heap S) (left zn) (Ptr z) l" "l \<noteq> Leaf"
    and c: "path_at (heap S) (Ptr z) c (root S) Null"
    and y: "tree_at (heap S) (Ptr y) py (Node Leaf y R)"
    and d: "distinct (before c @ inorder l @ z # y # inorder R @ after c)"
  obtains s' where "do {
        s \<leftarrow> transplant (Ptr z) (Ptr y) S;
        zn \<leftarrow> node_at s (Ptr z);
        s \<leftarrow> set_left (Ptr y) (left zn) s;
        yn \<leftarrow> node_at s (Ptr y);
        s \<leftarrow> set_parent (left yn) (Ptr y) s;
        zn \<leftarrow> node_at s (Ptr z);
        s \<leftarrow> set_color (Ptr y) (color zn) s;
        Some (c0, x, s)
      } = Some (c0, x, s')"
      "tree_at (heap s') (root s') Null (plug c (Node l y R))" "same_kv (heap S) (heap s')"
      "nxt s' = nxt S" "map_size s' = map_size S" "end_node s' = end_node S"
proof -
  from d have d': "distinct (before c @ after c)" "z \<notin> set (before c) \<union> set (after c)"
    "distinct (inorder (Node Leaf y R))" "z \<notin> set (inorder (Node Leaf y R))"
    "set (inorder (Node Leaf y R)) \<inter> (set (before c) \<union> set (after c)) = {}"
    by auto
  from d have d2: "y \<noteq> z" "y \<notin> set (inorder l)" "y \<notin> set (before c) \<union> set (after c)"
    "distinct (inorder l)" "set (inorder l) \<inter> (set (before c) \<union> set (after c)) = {}"
    "set (inorder l) \<inter> set (inorder R) = {}" "z \<notin> set (inorder l)" "y \<notin> set (inorder R)"
    by auto
  from transplant_ctx [OF z c y d'] obtain s1 where
    s1: "transplant (Ptr z) (Ptr y) S = Some s1"
      "tree_at (heap s1) (Ptr y) (top c Null) (Node Leaf y R)"
      "path_at (heap s1) (Ptr y) c (root s1) Null"
      "heap s1 z = Some zn"
      "\<And>a. Ptr a \<noteq> Ptr y \<Longrightarrow> Ptr a \<noteq> top c Null \<Longrightarrow> heap s1 a = heap S a"
      "same_data (heap S) (heap s1)"
      "nxt s1 = nxt S" "map_size s1 = map_size S" "end_node s1 = end_node S"
    by blast
  from s1(2) obtain yn1 where yn1: "heap s1 y = Some yn1" "parent yn1 = top c Null"
    "left yn1 = Null" "tree_at (heap s1) (right yn1) (Ptr y) R"
    by (auto split: option.splits)
  have pmem: "p \<in> set (before c) \<union> set (after c)" if "Ptr p = top c Null" for p
  proof (cases c)
    case Nil
    with that show ?thesis by simp
  next
    case (Cons f c')
    then have "c \<noteq> []" by simp
    from path_at_top [OF c this] that show ?thesis by auto
  qed
  have fr: "heap s1 b = heap S b" if "b \<noteq> y" "b \<notin> set (before c) \<union> set (after c)" for b
    using that pmem [of b] by (intro s1(5)) auto
  from l obtain l1 a l2 where la: "l = Node l1 a l2" by (cases l) auto
  with l(1) obtain an where an: "left zn = Ptr a" "heap S a = Some an"
    by (auto split: option.splits)
  from la d2 have a: "a \<noteq> y" "a \<notin> set (before c) \<union> set (after c)" "a \<noteq> z" "a \<in> set (inorder l)"
    by auto
  from fr [OF a(1,2)] an(2) have an1: "heap s1 a = Some an" by simp
  define s2 where "s2 = s1\<lparr>heap := (heap s1)(y \<mapsto> yn1\<lparr>left := Ptr a\<rparr>)\<rparr>"
  define s3 where "s3 = s2\<lparr>heap := (heap s2)(a \<mapsto> an\<lparr>parent := Ptr y\<rparr>)\<rparr>"
  define s4 where "s4 = s3\<lparr>heap := recolor (heap s3) y (color zn)\<rparr>"
  have e2: "set_left (Ptr y) (Ptr a) s1 = Some s2"
    by (simp add: set_left_def upd_def yn1(1) s2_def)
  have h2: "heap s2 y = Some (yn1\<lparr>left := Ptr a\<rparr>)" "heap s2 a = Some an" "heap s2 z = Some zn"
    using a d2(1) an1 s1(4) by (simp_all add: s2_def)
  have e3: "set_parent (Ptr a) (Ptr y) s2 = Some s3"
    by (simp add: set_parent_def upd_def h2 s3_def)
  have h3: "heap s3 y = Some (yn1\<lparr>left := Ptr a\<rparr>)" "heap s3 a = Some (an\<lparr>parent := Ptr y\<rparr>)"
    "heap s3 z = Some zn"
    using a d2(1) h2 by (simp_all add: s3_def)
  have e4: "set_color (Ptr y) (color zn) s3 = Some s4"
    by (simp add: set_color_live [OF h3(1)] s4_def)
  have E: "do {
        s \<leftarrow> transplant (Ptr z) (Ptr y) S;
        zn \<leftarrow> node_at s (Ptr z);
        s \<leftarrow> set_left (Ptr y) (left zn) s;
        yn \<leftarrow> node_at s (Ptr y);
        s \<leftarrow> set_parent (left yn) (Ptr y) s;
        zn \<leftarrow> node_at s (Ptr z);
        s \<leftarrow> set_color (Ptr y) (color zn) s;
        Some (c0, x, s)
      } = Some (c0, x, s4)"
    by (simp add: s1(1) node_at_def s1(4) an(1) e2 h2 e3 h3 e4)
  have f3: "heap s3 b = heap s1 b" if "b \<noteq> y" "b \<noteq> a" for b
    using that by (simp add: s3_def s2_def)
  have tl: "tree_at (heap s3) (Ptr a) (Ptr y) l"
  proof (rule tree_at_reparent [OF l(1) [unfolded an(1)] d2(4)])
    fix b assume b: "b \<in> set (inorder l)"
    show "heap s3 b = (if Ptr b = Ptr a then map_option (\<lambda>n. n\<lparr>parent := Ptr y\<rparr>) (heap S b) else heap S b)"
    proof (cases "b = a")
      case True
      with h3(2) an(2) show ?thesis by simp
    next
      case False
      from b d2 have "b \<noteq> y" "b \<notin> set (before c) \<union> set (after c)" by auto
      with False f3 [of b] fr [of b] show ?thesis by simp
    qed
  qed
  have tr: "tree_at (heap s3) (right yn1) (Ptr y) R"
  proof (rule tree_at_frame [OF yn1(4)])
    fix b assume b: "b \<in> set (inorder R)"
    with d2 a(4) have "b \<noteq> y" "b \<noteq> a" by auto
    then show "heap s3 b = heap s1 b" by (rule f3)
  qed
  have ty: "tree_at (heap s3) (Ptr y) (top c Null) (Node l y R)"
    using tl tr h3(1) yn1(2) by (simp add: la)
  have pc: "path_at (heap s3) (Ptr y) c (root s1) Null"
  proof (rule path_at_frame [OF s1(3)])
    fix b assume b: "b \<in> set (before c) \<union> set (after c)"
    with d2(3) a(2) have "b \<noteq> y" "b \<noteq> a" by auto
    then show "heap s3 b = heap s1 b" by (rule f3)
  qed
  have r4: "root s4 = root s1" "nxt s4 = nxt S" "map_size s4 = map_size S"
    "end_node s4 = end_node S"
    using s1(7-9) by (simp_all add: s4_def s3_def s2_def)
  have r3: "root s3 = root s1"
    by (simp add: s3_def s2_def)
  have "tree_at (heap s3) (root s1) Null (plug c (Node l y R))"
    unfolding tree_at_plug using ty pc by blast
  then have T: "tree_at (heap s4) (root s4) Null (plug c (Node l y R))"
    by (simp add: s4_def r3)
  have "same_kv (heap s1) (heap s3)"
    unfolding same_kv_def using yn1(1) an1 a(1) by (auto simp: s3_def s2_def kv_def)
  with same_data_kv [OF s1(6)] have "same_kv (heap S) (heap s3)"
    by (rule same_kv_trans)
  then have K: "same_kv (heap S) (heap s4)" by (simp add: s4_def)
  show ?thesis
    by (rule that [OF E T K r4(2) r4(3) r4(4)])
qed

lemma before_append: "before (c1 @ c2) = before c2 @ before c1"
  by (induction c1 rule: before.induct) auto

lemma after_append: "after (c1 @ c2) = after c1 @ after c2"
  by (induction c1 rule: after.induct) auto

lemma top_mem: "c \<noteq> [] \<Longrightarrow> \<exists>a. top c par = Ptr a \<and> a \<in> set (before c) \<union> set (after c)"
  by (cases "(c, par)" rule: top.cases) auto

lemma inside_mono: "inside L p \<Longrightarrow> set L \<subseteq> set L' \<Longrightarrow> inside L' p"
  by (auto simp: inside_def split: ptr.splits)

lemma unlink_left_null:
  assumes zn: "heap s z = Some zn" "parent zn = top c Null" "left zn = Null"
    "tree_at (heap s) (right zn) (Ptr z) r"
    and c: "path_at (heap s) (Ptr z) c (root s) Null"
    and d: "distinct (before c @ z # inorder r @ after c)"
  shows "\<exists>s'. unlink (Ptr z) s = Some (color zn, right zn, s') \<and>
      tree_at (heap s') (root s') Null (plug c r) \<and> same_kv (heap s) (heap s') \<and>
      nxt s' = nxt s \<and> map_size s' = map_size s \<and> end_node s' = end_node s"
proof -
  from d have d': "distinct (before c @ after c)" "z \<notin> set (before c) \<union> set (after c)"
    "distinct (inorder r)" "z \<notin> set (inorder r)"
    "set (inorder r) \<inter> (set (before c) \<union> set (after c)) = {}"
    by auto
  from transplant_ctx [OF zn(1,2) c zn(4) d'] obtain s1 where
    s1: "transplant (Ptr z) (right zn) s = Some s1"
      "tree_at (heap s1) (right zn) (top c Null) r"
      "path_at (heap s1) (right zn) c (root s1) Null"
      "same_data (heap s) (heap s1)"
      "nxt s1 = nxt s" "map_size s1 = map_size s" "end_node s1 = end_node s"
    by blast
  have "unlink (Ptr z) s = Some (color zn, right zn, s1)"
    by (simp add: unlink_def node_at_def zn s1(1))
  moreover have "tree_at (heap s1) (root s1) Null (plug c r)"
    unfolding tree_at_plug using s1(2,3) by blast
  ultimately show ?thesis
    using s1(4-) same_data_kv by blast
qed

lemma unlink_right_null:
  assumes zn: "heap s z = Some zn" "parent zn = top c Null" "left zn \<noteq> Null" "right zn = Null"
    "tree_at (heap s) (left zn) (Ptr z) l"
    and c: "path_at (heap s) (Ptr z) c (root s) Null"
    and d: "distinct (before c @ inorder l @ z # after c)"
  shows "\<exists>s'. unlink (Ptr z) s = Some (color zn, left zn, s') \<and>
      tree_at (heap s') (root s') Null (plug c l) \<and> same_kv (heap s) (heap s') \<and>
      nxt s' = nxt s \<and> map_size s' = map_size s \<and> end_node s' = end_node s"
proof -
  from d have d': "distinct (before c @ after c)" "z \<notin> set (before c) \<union> set (after c)"
    "distinct (inorder l)" "z \<notin> set (inorder l)"
    "set (inorder l) \<inter> (set (before c) \<union> set (after c)) = {}"
    by auto
  from transplant_ctx [OF zn(1,2) c zn(5) d'] obtain s1 where
    s1: "transplant (Ptr z) (left zn) s = Some s1"
      "tree_at (heap s1) (left zn) (top c Null) l"
      "path_at (heap s1) (left zn) c (root s1) Null"
      "same_data (heap s) (heap s1)"
      "nxt s1 = nxt s" "map_size s1 = map_size s" "end_node s1 = end_node s"
    by blast
  have "unlink (Ptr z) s = Some (color zn, left zn, s1)"
    by (simp add: unlink_def node_at_def zn s1(1))
  moreover have "tree_at (heap s1) (root s1) Null (plug c l)"
    unfolding tree_at_plug using s1(2,3) by blast
  ultimately show ?thesis
    using s1(4-) same_data_kv by blast
qed

lemma unlink_succ_child:
  assumes zn: "heap s z = Some zn" "parent zn = top c Null"
      "tree_at (heap s) (left zn) (Ptr z) l" "l \<noteq> Leaf"
      "tree_at (heap s) (right zn) (Ptr z) (Node Leaf y yr)"
    and c: "path_at (heap s) (Ptr z) c (root s) Null"
    and d: "distinct (before c @ inorder l @ z # y # inorder yr @ after c)"
  shows "\<exists>s' c0 x. unlink (Ptr z) s = Some (c0, x, s') \<and>
      tree_at (heap s') (root s') Null (plug c (Node l y yr)) \<and>
      inside (inorder yr) x \<and> same_kv (heap s) (heap s') \<and>
      nxt s' = nxt s \<and> map_size s' = map_size s \<and> end_node s' = end_node s"
proof -
  from zn(5) obtain yn where yn: "right zn = Ptr y" "heap s y = Some yn" "parent yn = Ptr z"
    "left yn = Null" "tree_at (heap s) (right yn) (Ptr y) yr"
    by (auto split: option.splits)
  from zn(3,4) have lz: "left zn \<noteq> Null" by (cases l) auto
  have m: "minimum (heap s) (right zn) = Some (Ptr y)"
    using minimum_tree [OF zn(5)] by simp
  have e1: "(if right yn \<noteq> Null then set_parent (right yn) (Ptr y) s else Some s) = Some s"
  proof (cases yr)
    case Leaf
    with yn(5) show ?thesis by simp
  next
    case (Node l1 b l2)
    with yn(5) obtain bn where bn: "right yn = Ptr b" "heap s b = Some bn" "parent bn = Ptr y"
      by (auto split: option.splits)
    have "(heap s)(b \<mapsto> bn\<lparr>parent := Ptr y\<rparr>) = heap s"
      using bn(2,3) by (auto simp: fun_eq_iff)
    then show ?thesis by (simp add: set_parent_def upd_def bn)
  qed
  have ty: "tree_at (heap s) (Ptr y) (Ptr z) (Node Leaf y yr)"
    using zn(5) yn(1) by simp
  have nz: "node_at s (Ptr z) = Some zn" "node_at s (Ptr y) = Some yn"
    by (simp_all add: node_at_def zn(1) yn(2))
  show ?thesis
  proof (rule unlink_finish [OF zn(1,2,3,4) c ty d, of "color yn" "right yn"])
    fix s'
    assume s': "do {
        s \<leftarrow> transplant (Ptr z) (Ptr y) s;
        zn \<leftarrow> node_at s (Ptr z);
        s \<leftarrow> set_left (Ptr y) (left zn) s;
        yn' \<leftarrow> node_at s (Ptr y);
        s \<leftarrow> set_parent (left yn') (Ptr y) s;
        zn \<leftarrow> node_at s (Ptr z);
        s \<leftarrow> set_color (Ptr y) (color zn) s;
        Some (color yn, right yn, s)
      } = Some (color yn, right yn, s')"
      "tree_at (heap s') (root s') Null (plug c (Node l y yr))" "same_kv (heap s) (heap s')"
      "nxt s' = nxt s" "map_size s' = map_size s" "end_node s' = end_node s"
    have "unlink (Ptr z) s = Some (color yn, right yn, s')"
      unfolding unlink_def
      by (simp add: nz lz yn(1) m [unfolded yn(1)] yn(3) e1 s'(1) Let_def)
    moreover have "inside (inorder yr) (right yn)"
      using tree_at_inside [OF yn(5)] .
    ultimately show ?thesis
      using s'(2-) yn(2) by blast
  qed
qed

lemma unlink_succ_deep:
  assumes T: "tree_at (heap s) (root s) Null (plug c (Node l z (plug cy (Node Leaf y yr))))"
    and cy: "cy \<noteq> []" "before cy = []"
    and l: "l \<noteq> Leaf"
    and d: "distinct (before c @ inorder l @ z # y # inorder yr @ after cy @ after c)"
  shows "\<exists>s' c0 x. unlink (Ptr z) s = Some (c0, x, s') \<and>
      tree_at (heap s') (root s') Null (plug c (Node l y (plug cy yr))) \<and>
      inside (inorder yr) x \<and> same_kv (heap s) (heap s') \<and>
      nxt s' = nxt s \<and> map_size s' = map_size s \<and> end_node s' = end_node s"
proof -
  define cf where "cf = cy @ RightOf l z # c"
  define r' where "r' = plug cy yr"
  have pf: "plug c (Node l z (plug cy X)) = plug cf X" for X
    by (simp add: cf_def plug_append)
  have bf: "before cf = before c @ inorder l @ [z]" "after cf = after cy @ after c"
    by (simp_all add: cf_def before_append after_append cy(2))
  have ir: "inorder r' = inorder yr @ after cy"
    by (simp add: r'_def inorder_plug cy(2))
  have ir0: "inorder (plug cy (Node Leaf y yr)) = y # inorder yr @ after cy"
    by (simp add: inorder_plug cy(2))
  have cfne: "cf \<noteq> []" by (simp add: cf_def)
  from T [unfolded pf tree_at_plug] obtain q where
    q: "tree_at (heap s) q (top cf Null) (Node Leaf y yr)" "path_at (heap s) q cf (root s) Null"
    by blast
  from q(1) have qy: "q = Ptr y" by simp
  from q(1) obtain yn where yn: "heap s y = Some yn" "parent yn = top cf Null"
    "left yn = Null" "tree_at (heap s) (right yn) (Ptr y) yr"
    by (auto split: option.splits)
  from T [unfolded tree_at_plug] obtain qz where
    qz: "tree_at (heap s) qz (top c Null) (Node l z (plug cy (Node Leaf y yr)))"
    "path_at (heap s) qz c (root s) Null"
    by blast
  from qz(1) have qzz: "qz = Ptr z" by simp
  from qz(1) obtain zn where zn: "heap s z = Some zn" "parent zn = top c Null"
    "tree_at (heap s) (left zn) (Ptr z) l"
    "tree_at (heap s) (right zn) (Ptr z) (plug cy (Node Leaf y yr))"
    by (auto split: option.splits)
  from zn(3) l have lz: "left zn \<noteq> Null" by (cases l) auto
  have "plug cy (Node Leaf y yr) \<noteq> Leaf" by (rule plug_not_Leaf [OF cy(1)])
  from minimum_tree [OF zn(4) this] have m: "minimum (heap s) (right zn) = Some (Ptr y)"
    by (simp add: ir0)
  from top_mem [OF cy(1), of Null] obtain p where
    p: "top cy Null = Ptr p" "p \<in> set (before cy) \<union> set (after cy)"
    by blast
  have tcf: "top cf Null = Ptr p"
    using top_append [OF cy(1), of "RightOf l z # c" Null Null] p(1) by (simp add: cf_def)
  from p(2) d cy(2) have pz: "p \<noteq> z" "p \<noteq> y" "p \<notin> set (inorder yr)"
    "p \<notin> set (inorder l)" "p \<notin> set (before c) \<union> set (after c)" "p \<in> set (after cy)"
    by auto
  from d have d1: "distinct (before cf @ after cf)" "y \<notin> set (before cf) \<union> set (after cf)"
    "distinct (inorder yr)" "y \<notin> set (inorder yr)"
    "set (inorder yr) \<inter> (set (before cf) \<union> set (after cf)) = {}"
    by (auto simp: bf)
  from transplant_ctx [OF yn(1,2) q(2) [unfolded qy] yn(4) d1] obtain s1 where
    s1: "transplant (Ptr y) (right yn) s = Some s1"
      "tree_at (heap s1) (right yn) (top cf Null) yr"
      "path_at (heap s1) (right yn) cf (root s1) Null"
      "heap s1 y = Some yn"
      "\<And>a. Ptr a \<noteq> right yn \<Longrightarrow> Ptr a \<noteq> top cf Null \<Longrightarrow> heap s1 a = heap s a"
      "same_data (heap s) (heap s1)"
      "nxt s1 = nxt s" "map_size s1 = map_size s" "end_node s1 = end_node s"
    by blast
  have xmem: "a \<in> set (inorder yr)" if "Ptr a = right yn" for a
    using yn(4) that [symmetric] by (simp add: tree_at_root_mem)
  have z1: "heap s1 z = Some zn"
    using s1(5) [of z] xmem [of z] d pz(1) zn(1) by (auto simp: tcf)
  have "tree_at (heap s1) (root s1) Null (plug cf yr)"
    unfolding tree_at_plug using s1(2,3) by blast
  then have "tree_at (heap s1) (root s1) Null (plug c (Node l z r'))"
    by (simp add: pf [symmetric] r'_def)
  from this [unfolded tree_at_plug] obtain q1 where
    q1: "tree_at (heap s1) q1 (top c Null) (Node l z r')" "path_at (heap s1) q1 c (root s1) Null"
    by blast
  from q1(1) have q1z: "q1 = Ptr z" by simp
  from q1(1) z1 have t1: "tree_at (heap s1) (left zn) (Ptr z) l"
    "tree_at (heap s1) (right zn) (Ptr z) r'"
    by auto
  have "r' \<noteq> Leaf" unfolding r'_def by (rule plug_not_Leaf [OF cy(1)])
  then obtain r1 b r2 where rb: "r' = Node r1 b r2" by (cases r') auto
  with t1(2) obtain bn where bn: "right zn = Ptr b" "heap s1 b = Some bn"
    by (auto split: option.splits)
  have bm: "b \<in> set (inorder r')" by (simp add: rb)
  with d ir have b: "b \<noteq> y" "b \<noteq> z" "b \<notin> set (inorder l)"
    "b \<notin> set (before c) \<union> set (after c)"
    by auto
  define s2 where "s2 = s1\<lparr>heap := (heap s1)(y \<mapsto> yn\<lparr>right := Ptr b\<rparr>)\<rparr>"
  define s3 where "s3 = s2\<lparr>heap := (heap s2)(b \<mapsto> bn\<lparr>parent := Ptr y\<rparr>)\<rparr>"
  have e2: "set_right (Ptr y) (Ptr b) s1 = Some s2"
    by (simp add: set_right_def upd_def s1(4) s2_def)
  have h2: "heap s2 y = Some (yn\<lparr>right := Ptr b\<rparr>)" "heap s2 b = Some bn"
    using b(1) bn(2) by (simp_all add: s2_def)
  have e3: "set_parent (Ptr b) (Ptr y) s2 = Some s3"
    by (simp add: set_parent_def upd_def h2 s3_def)
  have E1: "do {
        s \<leftarrow> transplant (Ptr y) (right yn) s;
        zn \<leftarrow> node_at s (Ptr z);
        s \<leftarrow> set_right (Ptr y) (right zn) s;
        yn' \<leftarrow> node_at s (Ptr y);
        set_parent (right yn') (Ptr y) s
      } = Some s3"
    by (simp add: s1(1) node_at_def z1 bn(1) e2 h2 e3)
  have f3: "heap s3 a = heap s1 a" if "a \<noteq> y" "a \<noteq> b" for a
    using that by (simp add: s3_def s2_def)
  have h3: "heap s3 y = Some (yn\<lparr>right := Ptr b\<rparr>)" "heap s3 b = Some (bn\<lparr>parent := Ptr y\<rparr>)"
    "heap s3 z = Some zn"
    using b(1,2) d z1 s1(4) by (auto simp: s3_def s2_def)
  have r3: "root s3 = root s1" "nxt s3 = nxt s" "map_size s3 = map_size s"
    "end_node s3 = end_node s"
    using s1(7-9) by (simp_all add: s3_def s2_def)
  have tl: "tree_at (heap s3) (left zn) (Ptr z) l"
  proof (rule tree_at_frame [OF t1(1)])
    fix a assume "a \<in> set (inorder l)"
    with d b(3) have "a \<noteq> y" "a \<noteq> b" by auto
    then show "heap s3 a = heap s1 a" by (rule f3)
  qed
  have pc: "path_at (heap s3) (Ptr z) c (root s3) Null"
    unfolding r3(1)
  proof (rule path_at_frame [OF q1(2) [unfolded q1z]])
    fix a assume "a \<in> set (before c) \<union> set (after c)"
    with d b(4) have "a \<noteq> y" "a \<noteq> b" by auto
    then show "heap s3 a = heap s1 a" by (rule f3)
  qed
  from d ir have dr: "distinct (inorder r')" "y \<notin> set (inorder r')" by auto
  have tr: "tree_at (heap s3) (Ptr b) (Ptr y) r'"
  proof (rule tree_at_reparent [OF t1(2) [unfolded bn(1)] dr(1)])
    fix a assume a: "a \<in> set (inorder r')"
    show "heap s3 a = (if Ptr a = Ptr b then map_option (\<lambda>n. n\<lparr>parent := Ptr y\<rparr>) (heap s1 a) else heap s1 a)"
    proof (cases "a = b")
      case True
      with h3(2) bn(2) show ?thesis by simp
    next
      case False
      from a dr(2) have "a \<noteq> y" by auto
      with False f3 [of a] show ?thesis by simp
    qed
  qed
  have ty: "tree_at (heap s3) (Ptr y) (parent yn) (Node Leaf y r')"
    using tr h3(1) yn(3) by simp
  from d ir have d3: "distinct (before c @ inorder l @ z # y # inorder r' @ after c)"
    by auto
  have K3: "same_kv (heap s1) (heap s3)"
    unfolding same_kv_def using s1(4) bn(2) b(1) by (auto simp: s3_def s2_def kv_def)
  have nz: "node_at s (Ptr z) = Some zn" "node_at s (Ptr y) = Some yn"
    by (simp_all add: node_at_def zn(1) yn(1))
  have pyz: "parent yn \<noteq> Ptr z"
    using yn(2) tcf pz(1) by simp
  show ?thesis
  proof (rule unlink_finish [OF h3(3) zn(2) tl l pc ty d3, of "color yn" "right yn"])
    fix s'
    assume s': "do {
        s \<leftarrow> transplant (Ptr z) (Ptr y) s3;
        zn \<leftarrow> node_at s (Ptr z);
        s \<leftarrow> set_left (Ptr y) (left zn) s;
        yn' \<leftarrow> node_at s (Ptr y);
        s \<leftarrow> set_parent (left yn') (Ptr y) s;
        zn \<leftarrow> node_at s (Ptr z);
        s \<leftarrow> set_color (Ptr y) (color zn) s;
        Some (color yn, right yn, s)
      } = Some (color yn, right yn, s')"
      "tree_at (heap s') (root s') Null (plug c (Node l y r'))" "same_kv (heap s3) (heap s')"
      "nxt s' = nxt s3" "map_size s' = map_size s3" "end_node s' = end_node s3"
    have "unlink (Ptr z) s = Some (color yn, right yn, s')"
      unfolding unlink_def
      by (simp add: nz lz bn(1) m [unfolded bn(1)] pyz E1 [unfolded bn(1)] s'(1) Let_def)
    moreover have "inside (inorder yr) (right yn)"
      using tree_at_inside [OF yn(4)] .
    moreover have "same_kv (heap s) (heap s')"
      using same_kv_trans [OF same_kv_trans [OF same_data_kv [OF s1(6)] K3] s'(3)] .
    ultimately show ?thesis
      using s'(2,4-) yn(1) r3 by (auto simp: r'_def)
  qed
qed

lemma unlink_tree:
  assumes T: "tree_at (heap s) (root s) Null t" and D: "distinct (inorder t)"
    and Z: "z \<in> set (inorder t)"
  shows "\<exists>c0 x s' t' xs ys. unlink (Ptr z) s = Some (c0, x, s') \<and>
      tree_at (heap s') (root s') Null t' \<and> inorder t = xs @ z # ys \<and> inorder t' = xs @ ys \<and>
      inside (xs @ ys) x \<and> same_kv (heap s) (heap s') \<and>
      nxt s' = nxt s \<and> map_size s' = map_size s \<and> end_node s' = end_node s"
proof -
  from split_shape [OF Z] obtain c l r where t: "t = plug c (Node l z r)" by blast
  from T [unfolded t tree_at_plug] obtain q where
    q: "tree_at (heap s) q (top c Null) (Node l z r)" "path_at (heap s) q c (root s) Null"
    by blast
  from q(1) have qz: "q = Ptr z" by simp
  from q(1) obtain zn where zn: "heap s z = Some zn" "parent zn = top c Null"
    "tree_at (heap s) (left zn) (Ptr z) l" "tree_at (heap s) (right zn) (Ptr z) r"
    by (auto split: option.splits)
  have i: "inorder t = (before c @ inorder l) @ z # inorder r @ after c"
    by (simp add: t inorder_plug)
  from D have d: "distinct (before c @ inorder l @ z # inorder r @ after c)"
    by (simp add: i)
  show ?thesis
  proof (cases "l = Leaf")
    case True
    with zn(3) have l0: "left zn = Null" by simp
    from d True have d': "distinct (before c @ z # inorder r @ after c)" by simp
    from unlink_left_null [OF zn(1,2) l0 zn(4) q(2) [unfolded qz] d'] obtain s' where
      s': "unlink (Ptr z) s = Some (color zn, right zn, s')"
      "tree_at (heap s') (root s') Null (plug c r)" "same_kv (heap s) (heap s')"
      "nxt s' = nxt s" "map_size s' = map_size s" "end_node s' = end_node s"
      by blast
    have "inside (before c @ inorder r @ after c) (right zn)"
      by (rule inside_mono [OF tree_at_inside [OF zn(4)]]) auto
    moreover have "inorder t = before c @ z # inorder r @ after c"
      by (simp add: i True)
    moreover have "inorder (plug c r) = before c @ inorder r @ after c"
      by (simp add: inorder_plug)
    ultimately show ?thesis using s' by blast
  next
    case lne: False
    with zn(3) have l1: "left zn \<noteq> Null" by (cases l) auto
    show ?thesis
    proof (cases "r = Leaf")
      case True
      with zn(4) have r0: "right zn = Null" by simp
      from d True have d': "distinct (before c @ inorder l @ z # after c)" by simp
      from unlink_right_null [OF zn(1,2) l1 r0 zn(3) q(2) [unfolded qz] d'] obtain s' where
        s': "unlink (Ptr z) s = Some (color zn, left zn, s')"
        "tree_at (heap s') (root s') Null (plug c l)" "same_kv (heap s) (heap s')"
        "nxt s' = nxt s" "map_size s' = map_size s" "end_node s' = end_node s"
        by blast
      have "inside ((before c @ inorder l) @ after c) (left zn)"
        by (rule inside_mono [OF tree_at_inside [OF zn(3)]]) auto
      moreover have "inorder t = (before c @ inorder l) @ z # after c"
        by (simp add: i True)
      moreover have "inorder (plug c l) = (before c @ inorder l) @ after c"
        by (simp add: inorder_plug)
      ultimately show ?thesis using s' by blast
    next
      case rne: False
      from d have dr: "distinct (inorder r)" by simp
      from hd_split [OF rne dr] obtain y cy yr where
        y: "r = plug cy (Node Leaf y yr)" "before cy = []"
        by blast
      have ir: "inorder r = y # inorder yr @ after cy"
        by (simp add: y inorder_plug)
      show ?thesis
      proof (cases "cy = []")
        case True
        with y(1) have ry: "r = Node Leaf y yr" by simp
        from d ry have d': "distinct (before c @ inorder l @ z # y # inorder yr @ after c)"
          by simp
        from unlink_succ_child [OF zn(1,2,3) lne zn(4) [unfolded ry] q(2) [unfolded qz] d']
        obtain s' c0 x where
          s': "unlink (Ptr z) s = Some (c0, x, s')"
          "tree_at (heap s') (root s') Null (plug c (Node l y yr))"
          "inside (inorder yr) x" "same_kv (heap s) (heap s')"
          "nxt s' = nxt s" "map_size s' = map_size s" "end_node s' = end_node s"
          by blast
        have "inside ((before c @ inorder l) @ y # inorder yr @ after c) x"
          by (rule inside_mono [OF s'(3)]) auto
        moreover have "inorder t = (before c @ inorder l) @ z # y # inorder yr @ after c"
          by (simp add: i ry)
        moreover have "inorder (plug c (Node l y yr)) = (before c @ inorder l) @ y # inorder yr @ after c"
          by (simp add: inorder_plug)
        ultimately show ?thesis using s'(1,2,4-) by blast
      next
        case False
        from d ir have d': "distinct (before c @ inorder l @ z # y # inorder yr @ after cy @ after c)"
          by simp
        from unlink_succ_deep [OF T [unfolded t y(1)] False y(2) lne d']
        obtain s' c0 x where
          s': "unlink (Ptr z) s = Some (c0, x, s')"
          "tree_at (heap s') (root s') Null (plug c (Node l y (plug cy yr)))"
          "inside (inorder yr) x" "same_kv (heap s) (heap s')"
          "nxt s' = nxt s" "map_size s' = map_size s" "end_node s' = end_node s"
          by blast
        have "inside ((before c @ inorder l) @ y # inorder yr @ after cy @ after c) x"
          by (rule inside_mono [OF s'(3)]) auto
        moreover have "inorder t = (before c @ inorder l) @ z # y # inorder yr @ after cy @ after c"
          by (simp add: i ir)
        moreover have "inorder (plug c (Node l y (plug cy yr))) =
            (before c @ inorder l) @ y # inorder yr @ after cy @ after c"
          by (simp add: inorder_plug y(2))
        ultimately show ?thesis using s'(1,2,4-) by blast
      qed
    qed
  qed
qed

lemma deleteNode_tree:
  assumes T: "tree_at (heap s) (root s) Null t" and D: "distinct (inorder t)"
    and Z: "z \<in> set (inorder t)" and R: "deleteNode (Ptr z) s = Some s'"
  shows "\<exists>t' xs ys. tree_at (heap s') (root s') Null t' \<and>
      inorder t = xs @ z # ys \<and> inorder t' = xs @ ys \<and>
      (\<forall>a. a \<noteq> z \<longrightarrow> map_option kv (heap s' a) = map_option kv (heap s a)) \<and>
      heap s' z = None \<and> nxt s' = nxt s \<and> map_size s' = map_size s - 1 \<and>
      end_node s' = end_node s"
proof -
  from unlink_tree [OF T D Z] obtain c0 x s1 t1 xs ys where
    u: "unlink (Ptr z) s = Some (c0, x, s1)" "tree_at (heap s1) (root s1) Null t1"
      "inorder t = xs @ z # ys" "inorder t1 = xs @ ys" "inside (xs @ ys) x"
      "same_kv (heap s) (heap s1)"
      "nxt s1 = nxt s" "map_size s1 = map_size s" "end_node s1 = end_node s"
    by blast
  from D u(3) have d1: "distinct (xs @ ys)" "z \<notin> set (xs @ ys)" by auto
  from R u(1) obtain s2 s3 where
    r: "(if \<not> c0 \<and> x \<noteq> Null then fixDelete x s1 else Some s1) = Some s2"
      "delete_cell (Ptr z) s2 = Some s3" "s' = s3\<lparr>map_size := map_size s3 - 1\<rparr>"
    by (auto simp: deleteNode_def bind_eq_Some_conv)
  have st1: "stays s1 (xs @ ys) s1"
    using u(2,4) d1(1) by (auto simp: stays_def)
  have st2: "stays s1 (xs @ ys) s2"
  proof (cases "\<not> c0 \<and> x \<noteq> Null")
    case True
    with r(1) have "fixDelete x s1 = Some s2" by simp
    from fixDelete_stays [OF this st1 u(5)] show ?thesis .
  next
    case False
    with r(1) st1 show ?thesis by simp
  qed
  then obtain t2 where t2: "tree_at (heap s2) (root s2) Null t2" "inorder t2 = xs @ ys"
    "same_kv (heap s1) (heap s2)" "nxt s2 = nxt s1" "map_size s2 = map_size s1"
    "end_node s2 = end_node s1"
    by (auto simp: stays_def keeps_def)
  from r(2) have s3: "s3 = s2\<lparr>heap := (heap s2)(z := None)\<rparr>"
    by (auto simp: delete_cell_def split: option.splits)
  have "tree_at (heap s3) (root s2) Null t2"
    by (rule tree_at_frame [OF t2(1)]) (use d1(2) t2(2) in \<open>auto simp: s3\<close>)
  then have T': "tree_at (heap s') (root s') Null t2"
    by (simp add: r(3) s3)
  have K: "same_kv (heap s) (heap s2)"
    by (rule same_kv_trans [OF u(6) t2(3)])
  have K': "\<forall>a. a \<noteq> z \<longrightarrow> map_option kv (heap s' a) = map_option kv (heap s a)"
    using K by (simp add: r(3) s3 same_kv_def)
  have "heap s' z = None" "nxt s' = nxt s" "map_size s' = map_size s - 1"
    "end_node s' = end_node s"
    using t2(4-) u(7-) by (simp_all add: r(3) s3)
  with T' K' u(3) t2(2) show ?thesis by blast
qed

section \<open>Client operations keep the entries they do not touch\<close>

lemma keys_inj:
  assumes "keys_ascending h t" "a \<in> set (inorder t)" "b \<in> set (inorder t)"
    "key_of h a = key_of h b"
  shows "a = b"
proof -
  from assms(1) have "distinct (map (key_of h) (inorder t))"
    by (simp add: keys_ascending_def strict_sorted_iff)
  then have "inj_on (key_of h) (set (inorder t))"
    by (simp add: distinct_map)
  with assms(2-) show ?thesis by (auto dest: inj_onD)
qed

lemma finds_iff:
  assumes "holds_tree this w t"
  shows "finds this w k v \<longleftrightarrow>
    (\<exists>a \<in> set (inorder t). key_of (cells w) a = k \<and> val_of (cells w) a = v)"
proof (cases "k \<in> key_of (cells w) ` set (inorder t)")
  case True
  then obtain a where a: "a \<in> set (inorder t)" "key_of (cells w) a = k" by auto
  from assms have T: "tree_at (cells w) (root (objs w this)) Null t"
    and K: "keys_ascending (cells w) t"
    by (simp_all add: holds_tree_def)
  from tree_at_live [OF T a(1)] obtain n where n: "cells w a = Some n" by blast
  from findNode_present [OF assms a(1)] a(2)
  have "find_map this k w = Some \<lparr>current = Ptr a, container = Some this\<rparr>"
    by (simp add: find_map_def)
  moreover have "key n = k" "val_of (cells w) a = val n"
    using n a(2) by (simp_all add: key_of_def val_of_def)
  ultimately have f: "finds this w k v \<longleftrightarrow> val_of (cells w) a = v"
    using n by (simp add: finds_def end_map_def iter_deref_def)
  have "(\<exists>b \<in> set (inorder t). key_of (cells w) b = k \<and> val_of (cells w) b = v) \<longleftrightarrow>
      val_of (cells w) a = v"
  proof
    assume "\<exists>b \<in> set (inorder t). key_of (cells w) b = k \<and> val_of (cells w) b = v"
    then obtain b where b: "b \<in> set (inorder t)" "key_of (cells w) b = k"
      "val_of (cells w) b = v" by blast
    from b(2) a(2) have "key_of (cells w) a = key_of (cells w) b" by simp
    from keys_inj [OF K a(1) b(1) this] b(3) show "val_of (cells w) a = v" by simp
  next
    assume "val_of (cells w) a = v"
    with a show "\<exists>b \<in> set (inorder t). key_of (cells w) b = k \<and> val_of (cells w) b = v"
      by blast
  qed
  with f show ?thesis by simp
next
  case False
  from findNode_absent [OF assms False] have "find_map this k w = Some (end_map this)"
    by (simp add: find_map_def)
  then have "\<not> finds this w k v" by (simp add: finds_def)
  with False show ?thesis by auto
qed

lemma sorted_remove:
  assumes "sorted_wrt (<) (map f (xs @ z # ys))" "\<forall>b \<in> set (xs @ ys). g b = f b"
  shows "sorted_wrt (<) (map g (xs @ ys)) \<and> (f z :: 'k :: linorder) \<notin> g ` set (xs @ ys)"
proof -
  from assms(2) have m: "map g (xs @ ys) = map f (xs @ ys)" by (intro map_cong) auto
  from assms(1) have "sorted_wrt (<) (map f (xs @ ys))"
    by (auto simp: sorted_wrt_append)
  moreover from assms(1) have "f z \<notin> f ` set (xs @ ys)"
    by (auto simp: sorted_wrt_append)
  moreover have "g ` set (xs @ ys) = f ` set (xs @ ys)"
    using assms(2) by (intro image_cong) auto
  ultimately show ?thesis by (simp only: m) simp
qed

lemma sound_view:
  "sound this w t \<longleftrightarrow>
     tree_at (heap (view this w)) (root (view this w)) Null t \<and>
     keys_ascending (heap (view this w)) t \<and>
     (\<forall>a. heap (view this w) a \<noteq> None \<longrightarrow> a < nxt (view this w))"
  by (simp add: sound_def holds_tree_def)

lemma sound_put:
  "sound this (put this s w) t \<longleftrightarrow>
     tree_at (heap s) (root s) Null t \<and> keys_ascending (heap s) t \<and>
     (\<forall>a. heap s a \<noteq> None \<longrightarrow> a < nxt s)"
  by (simp add: sound_def holds_tree_def)

lemma insert_map_sound:
  assumes S: "sound this w t" and R: "insert_map this (k, v) w = Some ((it, b), w')"
  shows "\<exists>t' z. sound this w' t' \<and> set (inorder t) \<subseteq> set (inorder t') \<and>
     (\<forall>a \<in> set (inorder t). key_of (cells w') a = key_of (cells w) a \<and>
        val_of (cells w') a = val_of (cells w) a) \<and>
     it = \<lparr>current = Ptr z, container = Some this\<rparr> \<and> z \<in> set (inorder t') \<and>
     key_of (cells w') z = k \<and> (b \<longrightarrow> val_of (cells w') z = v)"
proof (cases "k \<in> key_of (cells w) ` set (inorder t)")
  case True
  then obtain a where a: "a \<in> set (inorder t)" "key_of (cells w) a = k" by auto
  from S have ht: "holds_tree this w t" by (simp add: sound_def)
  from findNode_present [OF ht a(1)] a(2) R
  have "w' = w" "it = \<lparr>current = Ptr a, container = Some this\<rparr>" "\<not> b"
    by (simp_all add: insert_map_def)
  with S a show ?thesis by auto
next
  case False
  let ?s = "view this w"
  from S have ht: "holds_tree this w t" by (simp add: sound_def)
  from S have T: "tree_at (heap ?s) (root ?s) Null t" and K: "keys_ascending (heap ?s) t"
    and A: "\<And>a. heap ?s a \<noteq> None \<Longrightarrow> a < nxt ?s"
    by (simp_all add: sound_view)
  from False have N: "k \<notin> key_of (heap ?s) ` set (inorder t)" by simp
  from findNode_absent [OF ht False] R obtain nd s1 where
    i: "insertNode (k, v) ?s = Some (nd, s1)" "it = \<lparr>current = nd, container = Some this\<rparr>"
      "w' = put this s1 w" "b"
    by (auto simp: insert_map_def bind_eq_Some_conv)
  from i(1) have G: "black_root ?s \<or> insertNode (k, v) ?s \<noteq> None" by simp
  from insertNode_gen [OF T K G A N] i(1) obtain t' xs ys where
    r: "nd = Ptr (nxt ?s)"
      "tree_at (heap s1) (root s1) Null t'" "keys_ascending (heap s1) t'"
      "\<forall>a. heap s1 a \<noteq> None \<longrightarrow> a < nxt s1"
      "inorder t = xs @ ys" "inorder t' = xs @ [nxt ?s] @ ys"
      "nxt ?s \<notin> set (inorder t)"
      "key_of (heap s1) (nxt ?s) = k" "val_of (heap s1) (nxt ?s) = v"
      "\<forall>a. a \<noteq> nxt ?s \<longrightarrow> map_option kv (heap s1 a) = map_option kv (heap ?s a)"
    by auto
  have o: "key_of (cells w') a = key_of (cells w) a \<and> val_of (cells w') a = val_of (cells w) a"
    if "a \<in> set (inorder t)" for a
  proof -
    from that r(7) have "a \<noteq> nxt ?s" by auto
    with r(10) have "map_option kv (heap s1 a) = map_option kv (heap ?s a)" by blast
    with kv_key_val [of "heap s1" a "heap ?s"] show ?thesis by (simp add: i(3))
  qed
  have "sound this w' t'" using r(2,3,4) by (simp add: i(3) sound_put)
  moreover have "set (inorder t) \<subseteq> set (inorder t')" using r(5,6) by auto
  moreover have "nxt ?s \<in> set (inorder t')" using r(6) by simp
  ultimately show ?thesis
    using o r(1,8,9) i(2,3) by (intro exI [of _ t'] exI [of _ "nxt ?s"]) simp
qed

lemma erase_step_sound:
  assumes S: "sound this w t" and R: "step d this (Erase k) w = Some w'"
  shows "\<exists>t'. sound this w' t' \<and> set (inorder t') \<subseteq> set (inorder t) \<and>
     (\<forall>a \<in> set (inorder t). key_of (cells w) a \<noteq> k \<longrightarrow> a \<in> set (inorder t') \<and>
        key_of (cells w') a = key_of (cells w) a \<and> val_of (cells w') a = val_of (cells w) a) \<and>
     k \<notin> key_of (cells w') ` set (inorder t')"
proof (cases "k \<in> key_of (cells w) ` set (inorder t)")
  case False
  from S have ht: "holds_tree this w t" by (simp add: sound_def)
  from findNode_absent [OF ht False] R have "w' = w"
    by (auto simp: find_map_def erase_def end_map_def)
  with S False show ?thesis by auto
next
  case True
  then obtain z where z: "z \<in> set (inorder t)" "key_of (cells w) z = k" by auto
  let ?s = "view this w"
  from S have ht: "holds_tree this w t" by (simp add: sound_def)
  from S have T: "tree_at (heap ?s) (root ?s) Null t" and K: "keys_ascending (cells w) t"
    and A: "\<And>a. cells w a \<noteq> None \<Longrightarrow> a < brk w"
    by (simp_all add: sound_view)
  from keys_ascending_distinct [OF K] have D: "distinct (inorder t)" .
  from findNode_present [OF ht z(1)] z(2) R obtain s1 where
    e: "deleteNode (Ptr z) ?s = Some s1" "w' = put this s1 w"
    by (auto simp: find_map_def erase_def bind_eq_Some_conv)
  from deleteNode_tree [OF T D z(1) e(1)] obtain t' xs ys where
    r: "tree_at (heap s1) (root s1) Null t'" "inorder t = xs @ z # ys" "inorder t' = xs @ ys"
      "\<forall>a. a \<noteq> z \<longrightarrow> map_option kv (heap s1 a) = map_option kv (heap ?s a)"
      "heap s1 z = None" "nxt s1 = nxt ?s"
    by blast
  from D r(2) have zn: "z \<notin> set (xs @ ys)" by auto
  have o: "key_of (heap s1) a = key_of (cells w) a \<and> val_of (heap s1) a = val_of (cells w) a"
    if "a \<noteq> z" for a
  proof -
    from that r(4) have "map_option kv (heap s1 a) = map_option kv (heap ?s a)" by blast
    with kv_key_val [of "heap s1" a "heap ?s"] show ?thesis by simp
  qed
  have g: "\<forall>b \<in> set (xs @ ys). key_of (heap s1) b = key_of (cells w) b"
  proof
    fix b assume "b \<in> set (xs @ ys)"
    with zn have "b \<noteq> z" by auto
    from o [OF this] show "key_of (heap s1) b = key_of (cells w) b" by simp
  qed
  from K have "sorted_wrt (<) (map (key_of (cells w)) (xs @ z # ys))"
    by (simp add: keys_ascending_def r(2))
  from sorted_remove [OF this g]
  have srt: "sorted_wrt (<) (map (key_of (heap s1)) (xs @ ys))"
    and kz: "key_of (cells w) z \<notin> key_of (heap s1) ` set (xs @ ys)"
    by simp_all
  have K': "keys_ascending (heap s1) t'"
    using srt by (simp add: keys_ascending_def r(3))
  have A': "\<forall>a. heap s1 a \<noteq> None \<longrightarrow> a < nxt s1"
  proof (intro allI impI)
    fix a assume l: "heap s1 a \<noteq> None"
    with r(5) have "a \<noteq> z" by auto
    with r(4) have "map_option kv (heap s1 a) = map_option kv (heap ?s a)" by blast
    with l have "cells w a \<noteq> None" by (cases "cells w a") auto
    from A [OF this] show "a < nxt s1" by (simp add: r(6))
  qed
  have 1: "sound this w' t'"
    using r(1) K' A' by (simp add: e(2) sound_put)
  have 2: "set (inorder t') \<subseteq> set (inorder t)"
    by (auto simp: r(2,3))
  have 3: "a \<in> set (inorder t') \<and> key_of (cells w') a = key_of (cells w) a \<and>
      val_of (cells w') a = val_of (cells w) a"
    if "a \<in> set (inorder t)" "key_of (cells w) a \<noteq> k" for a
  proof -
    from that(2) z(2) have "a \<noteq> z" by auto
    with that(1) o [of a] show ?thesis by (auto simp: r(2,3) e(2))
  qed
  have 4: "k \<notin> key_of (cells w') ` set (inorder t')"
    using kz by (simp add: z(2) r(3) e(2))
  from 1 2 3 4 show ?thesis by blast
qed

lemma store_sound:
  assumes S: "sound this w t" and Z: "z \<in> set (inorder t)" and R: "store (Ptr z) v w = Some w'"
  shows "sound this w' t \<and> (\<forall>a. key_of (cells w') a = key_of (cells w) a) \<and>
     (\<forall>a. a \<noteq> z \<longrightarrow> val_of (cells w') a = val_of (cells w) a) \<and> val_of (cells w') z = v"
proof -
  from R obtain n where n: "cells w z = Some n" "w' = w\<lparr>cells := (cells w)(z \<mapsto> n\<lparr>val := v\<rparr>)\<rparr>"
    by (auto simp: store_def split: option.splits)
  from S have T: "tree_at (cells w) (root (objs w this)) Null t"
    and K: "keys_ascending (cells w) t" and A: "\<And>a. cells w a \<noteq> None \<Longrightarrow> a < brk w"
    by (simp_all add: sound_def holds_tree_def)
  have k: "key_of (cells w') a = key_of (cells w) a" for a
    using n by (simp add: key_of_def)
  have T': "tree_at (cells w') (root (objs w' this)) Null t"
  proof -
    have "tree_at (cells w') (root (objs w this)) Null t"
      by (rule tree_at_links [OF T]) (use n in \<open>auto simp: links_def\<close>)
    then show ?thesis by (simp add: n(2))
  qed
  have K': "keys_ascending (cells w') t"
    using K k by (simp add: keys_ascending_def cong: map_cong)
  have A': "\<forall>a. cells w' a \<noteq> None \<longrightarrow> a < brk w'"
    using A n by (auto simp: n(2))
  have "\<forall>a. a \<noteq> z \<longrightarrow> val_of (cells w') a = val_of (cells w) a" "val_of (cells w') z = v"
    using n by (simp_all add: val_of_def)
  with T' K' A' k show ?thesis by (simp add: sound_def holds_tree_def)
qed

lemma subscript_insert_map:
  "subscript d this k w = map_option (\<lambda>((it, b), w'). (current it, w')) (insert_map this (k, d) w)"
  by (auto simp: subscript_def insert_map_def split: Option.bind_split)

lemma assign_step_sound:
  assumes S: "sound this w t" and R: "step d this (Assign k v) w = Some w'"
  shows "\<exists>t'. sound this w' t' \<and> set (inorder t) \<subseteq> set (inorder t') \<and>
     (\<forall>a \<in> set (inorder t). key_of (cells w') a = key_of (cells w) a \<and>
        (key_of (cells w) a \<noteq> k \<longrightarrow> val_of (cells w') a = val_of (cells w) a)) \<and>
     (\<exists>z \<in> set (inorder t'). key_of (cells w') z = k \<and> val_of (cells w') z = v)"
proof -
  from R obtain it b w1 where
    i: "insert_map this (k, d) w = Some ((it, b), w1)" "store (current it) v w1 = Some w'"
    by (auto simp: subscript_insert_map bind_eq_Some_conv)
  from insert_map_sound [OF S i(1)] obtain t' z where
    r: "sound this w1 t'" "set (inorder t) \<subseteq> set (inorder t')"
      "\<forall>a \<in> set (inorder t). key_of (cells w1) a = key_of (cells w) a \<and>
        val_of (cells w1) a = val_of (cells w) a"
      "it = \<lparr>current = Ptr z, container = Some this\<rparr>" "z \<in> set (inorder t')"
      "key_of (cells w1) z = k"
    by blast
  from i(2) r(4) have st: "store (Ptr z) v w1 = Some w'" by simp
  from store_sound [OF r(1) r(5) st] have
    s: "sound this w' t'" "\<And>a. key_of (cells w') a = key_of (cells w1) a"
      "\<And>a. a \<noteq> z \<Longrightarrow> val_of (cells w') a = val_of (cells w1) a" "val_of (cells w') z = v"
    by simp_all
  have o: "key_of (cells w') a = key_of (cells w) a \<and>
        (key_of (cells w) a \<noteq> k \<longrightarrow> val_of (cells w') a = val_of (cells w) a)"
    if a: "a \<in> set (inorder t)" for a
  proof (cases "a = z")
    case True
    with r(3,6) a s(2) [of a] show ?thesis by auto
  next
    case False
    with r(3) a s(2) [of a] s(3) [of a] show ?thesis by auto
  qed
  have "\<exists>z \<in> set (inorder t'). key_of (cells w') z = k \<and> val_of (cells w') z = v"
    using r(5,6) s(2) [of z] s(4) by auto
  with s(1) r(2) o show ?thesis by blast
qed

lemma assign_at_step_sound:
  assumes S: "sound this w t" and R: "step d this (Assign_at k v) w = Some w'"
  shows "sound this w' t \<and>
     (\<forall>a \<in> set (inorder t). key_of (cells w') a = key_of (cells w) a \<and>
        (key_of (cells w) a \<noteq> k \<longrightarrow> val_of (cells w') a = val_of (cells w) a))"
proof (cases "k \<in> key_of (cells w) ` set (inorder t)")
  case False
  from S have ht: "holds_tree this w t" by (simp add: sound_def)
  from findNode_absent [OF ht False] R have "w' = w"
    by (simp add: at_map_def)
  with S show ?thesis by simp
next
  case True
  then obtain z where z: "z \<in> set (inorder t)" "key_of (cells w) z = k" by auto
  from S have ht: "holds_tree this w t" by (simp add: sound_def)
  from findNode_present [OF ht z(1)] z(2) R have st: "store (Ptr z) v w = Some w'"
    by (simp add: at_map_def)
  from store_sound [OF S z(1) st] have
    s: "sound this w' t" "\<And>a. key_of (cells w') a = key_of (cells w) a"
      "\<And>a. a \<noteq> z \<Longrightarrow> val_of (cells w') a = val_of (cells w) a"
    by simp_all
  have "val_of (cells w') a = val_of (cells w) a" if "key_of (cells w) a \<noteq> k" for a
  proof -
    from that z(2) have "a \<noteq> z" by auto
    then show ?thesis by (rule s(3))
  qed
  with s(1,2) show ?thesis by simp
qed

lemma step_finds:
  assumes S: "sound this w t" and R: "step d this x w = Some w'"
  shows "\<exists>t'. sound this w' t' \<and>
     (\<forall>k v. \<not> touches k x \<longrightarrow> finds this w k v \<longrightarrow> finds this w' k v)"
proof -
  from S have ht: "holds_tree this w t" by (simp add: sound_def)
  note f = finds_iff [OF ht]
  show ?thesis
  proof (cases x)
    case (Insert k' v')
    with R obtain it b where "insert_map this (k', v') w = Some ((it, b), w')"
      by auto
    from insert_map_sound [OF S this] obtain t' where
      r: "sound this w' t'" "set (inorder t) \<subseteq> set (inorder t')"
        "\<forall>a \<in> set (inorder t). key_of (cells w') a = key_of (cells w) a \<and>
          val_of (cells w') a = val_of (cells w) a"
      by blast
    from r(1) have ht': "holds_tree this w' t'" by (simp add: sound_def)
    have "finds this w' k v" if "finds this w k v" for k v
      using that r(2,3) unfolding f finds_iff [OF ht'] by fastforce
    with r(1) show ?thesis by blast
  next
    case (Erase k')
    from erase_step_sound [OF S R [unfolded Erase]] obtain t' where
      r: "sound this w' t'"
        "\<forall>a \<in> set (inorder t). key_of (cells w) a \<noteq> k' \<longrightarrow> a \<in> set (inorder t') \<and>
          key_of (cells w') a = key_of (cells w) a \<and> val_of (cells w') a = val_of (cells w) a"
      by blast
    from r(1) have ht': "holds_tree this w' t'" by (simp add: sound_def)
    have "finds this w' k v" if "finds this w k v" "k' \<noteq> k" for k v
      using that r(2) unfolding f finds_iff [OF ht'] by fastforce
    with r(1) Erase show ?thesis by auto
  next
    case (Assign k' v')
    from assign_step_sound [OF S R [unfolded Assign]] obtain t' where
      r: "sound this w' t'" "set (inorder t) \<subseteq> set (inorder t')"
        "\<forall>a \<in> set (inorder t). key_of (cells w') a = key_of (cells w) a \<and>
          (key_of (cells w) a \<noteq> k' \<longrightarrow> val_of (cells w') a = val_of (cells w) a)"
      by blast
    from r(1) have ht': "holds_tree this w' t'" by (simp add: sound_def)
    have "finds this w' k v" if "finds this w k v" "k' \<noteq> k" for k v
      using that r(2,3) unfolding f finds_iff [OF ht'] by fastforce
    with r(1) Assign show ?thesis by auto
  next
    case (Assign_at k' v')
    from assign_at_step_sound [OF S R [unfolded Assign_at]] have
      r: "sound this w' t"
        "\<forall>a \<in> set (inorder t). key_of (cells w') a = key_of (cells w) a \<and>
          (key_of (cells w) a \<noteq> k' \<longrightarrow> val_of (cells w') a = val_of (cells w) a)"
      by simp_all
    from r(1) have ht': "holds_tree this w' t" by (simp add: sound_def)
    have "finds this w' k v" if "finds this w k v" "k' \<noteq> k" for k v
      using that r(2) unfolding f finds_iff [OF ht'] by fastforce
    with r(1) Assign_at show ?thesis by auto
  qed
qed

lemma run_finds:
  "sound this w t \<Longrightarrow> run d this xs w = Some w' \<Longrightarrow>
   \<exists>t'. sound this w' t' \<and>
     (\<forall>k v. (\<forall>x \<in> set xs. \<not> touches k x) \<longrightarrow> finds this w k v \<longrightarrow> finds this w' k v)"
proof (induction xs arbitrary: w t)
  case Nil
  then show ?case by auto
next
  case (Cons x xs)
  from Cons.prems(2) obtain w1 where w1: "step d this x w = Some w1" "run d this xs w1 = Some w'"
    by (auto simp: bind_eq_Some_conv)
  from step_finds [OF Cons.prems(1) w1(1)] obtain t1 where
    t1: "sound this w1 t1" "\<And>k v. \<not> touches k x \<Longrightarrow> finds this w k v \<Longrightarrow> finds this w1 k v"
    by blast
  from Cons.IH [OF t1(1) w1(2)] obtain t' where
    t': "sound this w' t'"
      "\<And>k v. (\<forall>x \<in> set xs. \<not> touches k x) \<Longrightarrow> finds this w1 k v \<Longrightarrow> finds this w' k v"
    by blast
  have "finds this w' k v" if "\<forall>y \<in> set (x # xs). \<not> touches k y" "finds this w k v" for k v
    using that t1(2) [of k v] t'(2) [of k v] by simp
  with t'(1) show ?case by blast
qed

lemma erase_step_absent:
  assumes S: "sound this w t" and R: "step d this (Erase k) w = Some w'"
  shows "find_map this k w' = Some (end_map this) \<and> count_map this k w' = Some 0"
proof -
  from erase_step_sound [OF S R] obtain t' where
    r: "sound this w' t'" "k \<notin> key_of (cells w') ` set (inorder t')"
    by blast
  from r(1) have ht': "holds_tree this w' t'" by (simp add: sound_def)
  from findNode_absent [OF ht' r(2)] show ?thesis
    by (simp add: find_map_def count_map_def)
qed

lemma empty_world_sound: "sound this empty_world Leaf"
  by (simp add: sound_def holds_tree_def empty_world_def keys_ascending_def)

lemma reachable_sound:
  assumes "run d this xs empty_world = Some w"
  shows "\<exists>t. sound this w t"
proof -
  from run_finds [OF empty_world_sound assms] show ?thesis by blast
qed

text \<open>
  What holds when the calls return.  On a map that holds a tree with ascending keys: when
  \<open>insert\<close> has inserted the entry \<open>(k, v)\<close>, then after every sequence of client operations
  that return and that neither erase \<open>k\<close> nor assign to its mapped value, \<open>find(k)\<close> returns
  an iterator different from \<open>end()\<close> whose entry is \<open>(k, v)\<close>; when \<open>erase(find(k))\<close>
  returns, \<open>find(k)\<close> is \<open>end()\<close> and \<open>count(k)\<close> is 0.
\<close>

lemma returning_runs_keep_entries:
  assumes S: "sound this w t"
  shows "(\<forall>it w1 w2. insert_map this (k, v) w = Some ((it, True), w1) \<longrightarrow>
            run d this xs w1 = Some w2 \<longrightarrow> (\<forall>x \<in> set xs. \<not> touches k x) \<longrightarrow>
            finds this w2 k v) \<and>
         (\<forall>w'. step d this (Erase k) w = Some w' \<longrightarrow>
            find_map this k w' = Some (end_map this) \<and> count_map this k w' = Some 0) \<and>
         (\<forall>w'. run d this xs w = Some w' \<longrightarrow> (\<exists>t'. sound this w' t'))"
proof (intro conjI allI impI)
  fix it w1 w2
  assume i: "insert_map this (k, v) w = Some ((it, True), w1)"
    and r: "run d this xs w1 = Some w2" and n: "\<forall>x \<in> set xs. \<not> touches k x"
  from insert_map_sound [OF S i] obtain t1 z where
    t1: "sound this w1 t1" "z \<in> set (inorder t1)" "key_of (cells w1) z = k"
      "val_of (cells w1) z = v"
    by auto
  from t1(1) have "holds_tree this w1 t1" by (simp add: sound_def)
  from finds_iff [OF this, of k v] t1(2,3,4) have "finds this w1 k v" by blast
  with run_finds [OF t1(1) r] n show "finds this w2 k v" by blast
next
  fix w'
  assume "step d this (Erase k) w = Some w'"
  from erase_step_absent [OF S this]
  show "find_map this k w' = Some (end_map this)" "count_map this k w' = Some 0"
    by simp_all
next
  fix w'
  assume "run d this xs w = Some w'"
  from run_finds [OF S this] show "\<exists>t'. sound this w' t'" by blast
qed

lemma returning_runs_keep_entries_example:
  "sound 1 two_maps (Node (Node Leaf 1 Leaf) 0 (Node Leaf 2 Leaf)) \<and>
   (\<exists>it w1 w2 w3. insert_map 1 (5::nat, 50::nat) two_maps = Some ((it, True), w1) \<and>
      run 0 1 [Insert 4 40, Erase 2, Assign 3 33, Insert 5 51, Assign 6 60, Assign_at 1 11] w1 = Some w2 \<and>
      finds 1 w2 5 50 \<and>
      step 0 1 (Erase 5) w2 = Some w3 \<and>
      find_map 1 5 w3 = Some (end_map 1) \<and> count_map 1 5 w3 = Some 0)"
proof -
  let ?t = "Node (Node Leaf 1 Leaf) 0 (Node Leaf 2 Leaf)"
  let ?xs = "[Insert 4 40, Erase 2, Assign 3 33, Insert 5 51, Assign 6 60, Assign_at 1 11] :: (nat, nat) op list"
  have S: "sound 1 two_maps ?t"
    by (simp add: sound_def holds_tree_def two_maps_def keys_ascending_def key_of_def)
  have e: "(case insert_map 1 (5::nat, 50::nat) two_maps of None \<Rightarrow> False
     | Some ((it, b), w1) \<Rightarrow> b \<and> (case run 0 1 ?xs w1 of None \<Rightarrow> False
        | Some w2 \<Rightarrow> step 0 1 (Erase 5) w2 \<noteq> None))"
    by code_simp
  then obtain it w1 w2 w3 where
    r: "insert_map 1 (5::nat, 50::nat) two_maps = Some ((it, True), w1)"
      "run 0 1 ?xs w1 = Some w2" "step 0 1 (Erase 5) w2 = Some w3"
    by (auto split: option.splits)
  have n: "\<forall>x \<in> set ?xs. \<not> touches (5::nat) x" by simp
  from returning_runs_keep_entries [OF S, of 5 50 0 ?xs] r(1,2) n have f: "finds 1 w2 5 50"
    by blast
  from insert_map_sound [OF S r(1)] obtain t1 where t1: "sound 1 w1 t1" by blast
  from returning_runs_keep_entries [OF t1, of 5 50 0 ?xs] r(2) obtain t2 where t2: "sound 1 w2 t2"
    by blast
  from returning_runs_keep_entries [OF t2, of 5 50 0 ?xs] r(3)
  have "find_map 1 5 w3 = Some (end_map 1)" "count_map 1 5 w3 = Some 0"
    by blast+
  with S r f show ?thesis by blast
qed

section \<open>The size counter\<close>











section \<open>Erasing a black leaf\<close>

text \<open>
  C1.  The claim: after every sequence of insertions and erasures from the empty map the
  tree satisfies the red-black invariants (ascending keys, no red node with a red child,
  the same number of black nodes on every path from the root to a null reference).

  The code does not keep the third invariant.  Inserting 1, 2, 3, 4 and erasing 4 leaves
  the black root 2 with the black leaves 1 and 3.  Erasing 1 removes a black leaf: \<open>x\<close>
  is null, the test \<open>!y_original_color && x != nullptr\<close> of \<open>deleteNode\<close> fails, and
  \<open>fixDelete\<close> is skipped.  The tree that results is the root 2 (cell 1) with the right
  child 3 (cell 2) and no left child: one black node on the leftmost path, two on the
  others.
\<close>

theorem erase_black_leaf_breaks_black_height:
  "(case run () 0 [Insert (1::nat) (), Insert 2 (), Insert 3 (), Insert 4 (), Erase 4, Erase 1] empty_world of
      None \<Rightarrow> False
    | Some w \<Rightarrow>
        tree_at (cells w) (root (objs w 0)) Null (Node Leaf 1 (Node Leaf 2 Leaf)) \<and>
        black_counts (cells w) (Node Leaf 1 (Node Leaf 2 Leaf)) = [1, 2, 2] \<and>
        \<not> rb_invariants (cells w) (Node Leaf 1 (Node Leaf 2 Leaf)))"
  by code_simp

text \<open>
  C2.  The claim: whenever the node that \<open>deleteNode\<close> physically removes was black, the
  delete fix-up runs.

  In the state reached by inserting 1, 2, 3, 4 and erasing 4, the node of key 1 (cell 0)
  is a black leaf.  Unlinking it yields \<open>y_original_color = false\<close> (black) and \<open>x\<close> null,
  so the guard of \<open>fixDelete\<close> is false and the fix-up is not run: the black counts of the
  tree that \<open>deleteNode\<close> returns are those of the unlinked tree, and they differ.
\<close>

theorem deleteNode_black_leaf_skips_fixDelete:
  "(case run () 0 [Insert (1::nat) (), Insert 2 (), Insert 3 (), Insert 4 (), Erase 4] empty_world of
      None \<Rightarrow> False
    | Some w \<Rightarrow>
        map_option (\<lambda>(y_original_color, x, s). (y_original_color, x))
          (unlink (Ptr 0) (view 0 w)) = Some (False, Null) \<and>
        map_option (\<lambda>s. (root s, black_counts (heap s) (Node Leaf 1 (Node Leaf 2 Leaf))))
          (deleteNode (Ptr 0) (view 0 w)) = Some (Ptr 1, [1, 2, 2]))"
  by code_simp

section \<open>Erasing through an iterator\<close>

text \<open>
  C8, as the code has it.  \<open>erase\<close> raises the invalid-iterator error exactly when the
  iterator is past the end or is bound to another container (or to none), and then the
  state is unchanged.  Whether the node is a live entry is not looked at.
\<close>

theorem erase_invalid_iterator_iff:
  "(container pos \<noteq> Some this \<or> current pos = Null
      \<longrightarrow> erase this pos w = Some (Inl Invalid_iterator, w)) \<and>
   (\<not> (container pos \<noteq> Some this \<or> current pos = Null)
      \<longrightarrow> (\<forall>w'. erase this pos w \<noteq> Some (Inl Invalid_iterator, w')))"
  by (auto simp: erase_def split: Option.bind_splits)

theorem erase_invalid_iterator_iff_witness:
  "erase 0 (end_map 0) (empty_world :: (nat, unit) world) = Some (Inl Invalid_iterator, empty_world) \<and>
   erase 0 \<lparr>current = Ptr 0, container = Some 1\<rparr> (empty_world :: (nat, unit) world)
     = Some (Inl Invalid_iterator, empty_world) \<and>
   (case step () 0 (Insert (1::nat) ()) empty_world of None \<Rightarrow> False
    | Some w \<Rightarrow> (\<forall>w'. erase 0 \<lparr>current = Ptr 0, container = Some 0\<rparr> w \<noteq> Some (Inl Invalid_iterator, w')))"
proof -
  have a: "erase 0 (end_map 0) (empty_world :: (nat, unit) world) = Some (Inl Invalid_iterator, empty_world)"
    using erase_invalid_iterator_iff [of "end_map 0" 0 "empty_world :: (nat, unit) world"]
    by (simp add: end_map_def)
  have b: "erase 0 \<lparr>current = Ptr 0, container = Some 1\<rparr> (empty_world :: (nat, unit) world)
     = Some (Inl Invalid_iterator, empty_world)"
    using erase_invalid_iterator_iff [of "\<lparr>current = Ptr 0, container = Some 1\<rparr>" 0 "empty_world :: (nat, unit) world"]
    by simp
  have c: "step () 0 (Insert (1::nat) ()) empty_world \<noteq> None"
    by code_simp
  show ?thesis
    using a b c erase_invalid_iterator_iff [of "\<lparr>current = Ptr 0, container = Some 0\<rparr>" 0]
    by (auto split: option.splits)
qed

text \<open>
  The claim of C8 fails for a stale node: after inserting key 1 and erasing it, cell 0 is
  no longer live, and \<open>erase\<close> on an iterator of this container that still denotes cell 0
  does not raise the invalid-iterator error (it goes on to dereference the dead cell).
\<close>

theorem erase_stale_counterexample:
  "(case run () 0 [Insert (1::nat) (), Erase 1] empty_world of
      None \<Rightarrow> False
    | Some w \<Rightarrow>
        cells w 0 = None \<and>
        map_option fst (erase 0 \<lparr>current = Ptr 0, container = Some 0\<rparr> w) \<noteq> Some (Inl Invalid_iterator))"
  by code_simp

section \<open>Self-assignment\<close>

text \<open>
  C10.  Assigning a map to itself returns at once: nothing is destroyed or copied, and
  the store and every map object are as before.
\<close>

theorem assign_self:
  "assign this this w = Some w"
  by (simp add: assign_def)

section \<open>Inserting a key that is present\<close>

text \<open>
  C3.  When the map holds a node \<open>a\<close> with the key of the new entry, \<open>insert\<close> returns an
  iterator to \<open>a\<close> with the flag \<open>false\<close>, and the state (the size of the map, the
  stored value and everything else) is the state before the call.
\<close>

theorem insert_present_key:
  "holds_tree this w t \<Longrightarrow> a \<in> set (inorder t) \<Longrightarrow>
   insert_map this (key_of (cells w) a, v) w
     = Some ((\<lparr>current = Ptr a, container = Some this\<rparr>, False), w)"
  by (simp add: insert_map_def findNode_present)

theorem insert_present_key_witness:
  "(case run 0 0 [Insert (1::nat) (10::nat), Insert 2 20] empty_world of
      None \<Rightarrow> False
    | Some w \<Rightarrow>
        holds_tree 0 w (Node Leaf 0 (Node Leaf 1 Leaf)) \<and> key_of (cells w) 1 = 2 \<and>
        insert_map 0 (2, 30) w = Some ((\<lparr>current = Ptr 1, container = Some 0\<rparr>, False), w))"
proof -
  let ?r = "run 0 0 [Insert (1::nat) (10::nat), Insert 2 20] empty_world"
  have e: "(case ?r of None \<Rightarrow> False
    | Some w \<Rightarrow> holds_tree 0 w (Node Leaf 0 (Node Leaf 1 Leaf)) \<and> key_of (cells w) 1 = 2)"
    by code_simp
  show ?thesis
  proof (cases ?r)
    case None
    with e show ?thesis by (simp only: option.case)
  next
    case (Some w)
    with e have h: "holds_tree 0 w (Node Leaf 0 (Node Leaf 1 Leaf))" "key_of (cells w) 1 = 2"
      by (simp_all only: option.case)
    have "1 \<in> set (inorder (Node Leaf 0 (Node Leaf 1 Leaf)))" by simp
    from insert_present_key [OF h(1) this, of 30] h Some show ?thesis
      by (simp only: option.case simp_thms)
  qed
qed

section \<open>Errors at the boundaries\<close>

text \<open>
  C6.  \<open>--begin()\<close> and \<open>++end()\<close> raise the invalid-iterator error, and \<open>at\<close> and the
  const \<open>operator[]\<close> raise the out-of-bound error on an absent key.  The non-const \<open>at\<close>
  returns the state it was given; the const members and the iterator operators only read
  the state (their container is a \<open>const map *\<close>), so they have no state to return.
\<close>

theorem boundary_errors:
  assumes "holds_tree this w t"
  shows "(\<exists>it. begin_map this w = Some it \<and> iter_dec w it = Some (Inl Invalid_iterator)) \<and>
    iter_inc w (end_map this) = Some (Inl Invalid_iterator) \<and>
    (k \<notin> key_of (cells w) ` set (inorder t) \<longrightarrow>
       at_map this k w = Some (Inl Index_out_of_bound, w) \<and>
       at_const this k w = Some (Inl Index_out_of_bound) \<and>
       subscript_const this k w = Some (Inl Index_out_of_bound))"
proof -
  from assms have "tree_at (cells w) (root (objs w this)) Null t"
    by (simp add: holds_tree_def)
  then have "\<exists>it. begin_map this w = Some it \<and> iter_dec w it = Some (Inl Invalid_iterator)"
    by (rule dec_begin)
  moreover have "iter_inc w (end_map this) = Some (Inl Invalid_iterator)"
    by (simp add: iter_inc_def end_map_def)
  moreover have "at_map this k w = Some (Inl Index_out_of_bound, w) \<and>
       at_const this k w = Some (Inl Index_out_of_bound) \<and>
       subscript_const this k w = Some (Inl Index_out_of_bound)"
    if "k \<notin> key_of (cells w) ` set (inorder t)"
    using findNode_absent [OF assms that]
    by (simp add: at_map_def at_const_def subscript_const_def)
  ultimately show ?thesis by blast
qed

theorem boundary_errors_witness:
  "(case run 0 0 [Insert (1::nat) (10::nat), Insert 2 20] empty_world of
      None \<Rightarrow> False
    | Some w \<Rightarrow>
        holds_tree 0 w (Node Leaf 0 (Node Leaf 1 Leaf)) \<and>
        (5::nat) \<notin> key_of (cells w) ` set (inorder (Node Leaf 0 (Node Leaf 1 Leaf))) \<and>
        (\<exists>it. begin_map 0 w = Some it \<and> iter_dec w it = Some (Inl Invalid_iterator)) \<and>
        iter_inc w (end_map 0) = Some (Inl Invalid_iterator) \<and>
        at_map 0 5 w = Some (Inl Index_out_of_bound, w) \<and>
        at_const 0 5 w = Some (Inl Index_out_of_bound) \<and>
        subscript_const 0 5 w = Some (Inl Index_out_of_bound))"
proof -
  let ?r = "run 0 0 [Insert (1::nat) (10::nat), Insert 2 20] empty_world"
  let ?t = "Node Leaf 0 (Node Leaf 1 Leaf)"
  have e: "(case ?r of None \<Rightarrow> False
    | Some w \<Rightarrow> holds_tree 0 w ?t \<and> (5::nat) \<notin> key_of (cells w) ` set (inorder ?t))"
    by code_simp
  show ?thesis
  proof (cases ?r)
    case None
    with e show ?thesis by (simp only: option.case)
  next
    case (Some w)
    with e have h: "holds_tree 0 w ?t" "(5::nat) \<notin> key_of (cells w) ` set (inorder ?t)"
      by (simp_all only: option.case simp_thms)
    from boundary_errors [OF h(1), of 5] h Some show ?thesis
      by (simp only: option.case simp_thms)
  qed
qed

section \<open>Iteration in key order\<close>



section \<open>Copy construction and copy assignment\<close>

text \<open>
  C9.  Let \<open>other\<close> hold the tree \<open>ts\<close>, in a store whose live cells all lie below the
  allocator's next address, and let \<open>this\<close> be another map object.  The copy constructor
  leaves in \<open>this\<close> a deep copy of \<open>ts\<close>.  When \<open>this\<close> holds a tree \<open>td\<close> of its own, disjoint
  from \<open>ts\<close>, the assignment \<open>this = other\<close> leaves in \<open>this\<close> a deep copy of \<open>ts\<close>, and every
  cell of \<open>td\<close> has been released.
\<close>

theorem deep_copy:
  assumes src: "tree_at (cells w) (root (objs w other)) Null ts"
    and alloc: "\<forall>a. cells w a \<noteq> None \<longrightarrow> a < brk w"
    and ne: "this \<noteq> other"
  shows "(\<exists>w' t'. map_copy_ctor this other w = Some w' \<and> is_deep_copy w other ts w' this t') \<and>
    (tree_at (cells w) (root (objs w this)) Null td \<and> distinct (inorder td) \<and>
     set (inorder ts) \<inter> set (inorder td) = {} \<longrightarrow>
       (\<exists>w' t'. assign this other w = Some w' \<and> is_deep_copy w other ts w' this t' \<and>
          (\<forall>a \<in> set (inorder td). cells w' a = None)))"
proof (intro conjI impI)
  let ?s = "(view this w)\<lparr>map_size := map_size (objs w other)\<rparr>"
  have a: "heap ?s a \<noteq> None \<Longrightarrow> a < nxt ?s" for a
    using alloc by (simp add: view_def)
  have t: "tree_at (heap ?s) (root (objs w other)) Null ts"
    using src by (simp add: view_def)
  from copy_into [OF t a] obtain r s' t' where
    c: "copy (root (objs w other)) Null ?s = Some (r, s')" "map_size s' = map_size ?s"
      "tree_at (heap s') r Null t'" "same_entries (heap ?s) ts (heap s') t'"
      "set (inorder t') \<inter> set (inorder ts) = {}"
      "tree_at (heap s') (root (objs w other)) Null ts" "same_entries (heap ?s) ts (heap s') ts"
    by blast
  let ?w = "put this (s'\<lparr>root := r, end_node := Null\<rparr>) w"
  have "map_copy_ctor this other w = Some ?w"
    using c(1) by (simp add: map_copy_ctor_def)
  moreover have "is_deep_copy w other ts ?w this t'"
    using c ne by (simp add: is_deep_copy_def view_def)
  ultimately show "\<exists>w' t'. map_copy_ctor this other w = Some w' \<and> is_deep_copy w other ts w' this t'"
    by blast
next
  assume d: "tree_at (cells w) (root (objs w this)) Null td \<and> distinct (inorder td) \<and>
     set (inorder ts) \<inter> set (inorder td) = {}"
  let ?s0 = "view this w"
  let ?s1 = "?s0\<lparr>heap := (\<lambda>a. if a \<in> set (inorder td) then None else heap ?s0 a)\<rparr>"
  have 1: "destroy (root ?s0) ?s0 = Some ?s1"
    using d by (intro destroy_tree [where par = Null]) simp_all
  let ?w1 = "put this ?s1 w"
  let ?s2 = "view this ?w1"
  have h2: "heap ?s2 a = (if a \<in> set (inorder td) then None else cells w a)" for a
    by (simp add: view_def put_def)
  have n2: "nxt ?s2 = brk w" by (simp add: view_def put_def)
  have o2: "objs ?w1 other = objs w other" using ne by simp
  have a2: "heap ?s2 a \<noteq> None \<Longrightarrow> a < nxt ?s2" for a
    using alloc unfolding h2 n2 by (auto split: if_splits)
  have t2: "tree_at (heap ?s2) (root (objs ?w1 other)) Null ts"
    unfolding o2 by (rule tree_at_frame [OF src]) (use d h2 in auto)
  from copy_into [OF t2 a2] obtain r s' t' where
    c: "copy (root (objs ?w1 other)) Null ?s2 = Some (r, s')" "map_size s' = map_size ?s2"
      "tree_at (heap s') r Null t'" "same_entries (heap ?s2) ts (heap s') t'"
      "set (inorder t') \<inter> set (inorder ts) = {}"
      "tree_at (heap s') (root (objs ?w1 other)) Null ts" "same_entries (heap ?s2) ts (heap s') ts"
      "\<forall>a < nxt ?s2. heap s' a = heap ?s2 a"
    by blast
  let ?w = "put this (s'\<lparr>root := r, map_size := map_size (objs ?w1 other)\<rparr>) ?w1"
  have r: "assign this other w = Some ?w"
    using ne 1 c(1) by (simp add: assign_def Let_def)
  have fl: "heap ?s2 a = cells w a" if "a \<in> set (inorder ts)" for a
    using that d h2 by auto
  have e1: "same_entries (cells w) ts (heap s') t'"
    by (rule same_entries_frame_left [OF c(4)]) (use fl in simp)
  have e2: "same_entries (cells w) ts (heap s') ts"
    by (rule same_entries_frame_left [OF c(7)]) (use fl in simp)
  have dc: "is_deep_copy w other ts ?w this t'"
    using c(3,5,6) e1 e2 ne o2 by (simp add: is_deep_copy_def)
  have dead: "\<forall>a \<in> set (inorder td). cells ?w a = None"
  proof
    fix a assume a: "a \<in> set (inorder td)"
    from d have "tree_at (cells w) (root (objs w this)) Null td" by simp
    from tree_at_live [OF this a] alloc have "a < brk w" by auto
    with c(8) a h2 n2 show "cells ?w a = None" by simp
  qed
  from r dc dead
  show "\<exists>w' t'. assign this other w = Some w' \<and> is_deep_copy w other ts w' this t' \<and>
          (\<forall>a \<in> set (inorder td). cells w' a = None)"
    by blast
qed

theorem deep_copy_witness:
  "(\<exists>w' t'. map_copy_ctor 2 1 two_maps = Some w' \<and>
      is_deep_copy two_maps 1 (Node (Node Leaf 1 Leaf) 0 (Node Leaf 2 Leaf)) w' 2 t') \<and>
   (\<exists>w' t'. assign 0 1 two_maps = Some w' \<and>
      is_deep_copy two_maps 1 (Node (Node Leaf 1 Leaf) 0 (Node Leaf 2 Leaf)) w' 0 t' \<and>
      (\<forall>a \<in> set (inorder (Node Leaf 3 Leaf)). cells w' a = None))"
proof -
  let ?ts = "Node (Node Leaf 1 Leaf) 0 (Node Leaf 2 Leaf)"
  let ?td = "Node Leaf 3 Leaf"
  have src: "tree_at (cells two_maps) (root (objs two_maps 1)) Null ?ts"
    by (simp add: two_maps_def)
  have alloc: "\<forall>a. cells two_maps a \<noteq> None \<longrightarrow> a < brk two_maps"
    by (simp add: two_maps_def)
  have dst: "tree_at (cells two_maps) (root (objs two_maps 0)) Null ?td \<and> distinct (inorder ?td) \<and>
     set (inorder ?ts) \<inter> set (inorder ?td) = {}"
    by (simp add: two_maps_def)
  have 1: "\<exists>w' t'. map_copy_ctor 2 1 two_maps = Some w' \<and> is_deep_copy two_maps 1 ?ts w' 2 t'"
    using deep_copy [OF src alloc, of 2 Leaf] by simp
  have ne: "(0::nat) \<noteq> 1" by simp
  have 2: "\<exists>w' t'. assign 0 1 two_maps = Some w' \<and> is_deep_copy two_maps 1 ?ts w' 0 t' \<and>
      (\<forall>a \<in> set (inorder ?td). cells w' a = None)"
    using deep_copy [OF src alloc ne, of ?td] dst by blast
  from 1 2 show ?thesis by blast
qed

section \<open>\<open>operator[]\<close>\<close>

text \<open>
  C7.  On a map that satisfies the invariant, the mutable \<open>operator[]\<close> with an absent key
  returns a reference to a new node \<open>z\<close> of the tree that carries the key and the default
  value; the size has grown by one, the invariant holds again and every other entry is
  as before.  With a present key it returns a reference to the node of that key and the
  state it was given.  The const \<open>operator[]\<close> is \<open>at\<close>: out-of-bound for an absent key,
  a reference to the node for a present one; being const it has no state to change.
\<close>

theorem subscript_inserts:
  assumes inv: "map_inv this w t"
  shows "(k \<notin> key_of (cells w) ` set (inorder t) \<longrightarrow>
      (\<exists>z w' t'. subscript d this k w = Some (Ptr z, w') \<and> map_inv this w' t' \<and>
         z \<notin> set (inorder t) \<and> set (inorder t') = insert z (set (inorder t)) \<and>
         key_of (cells w') z = k \<and> load (Ptr z) w' = Some d \<and>
         size_map this w' = size_map this w + 1 \<and>
         (\<forall>a \<in> set (inorder t). key_of (cells w') a = key_of (cells w) a \<and>
                                 val_of (cells w') a = val_of (cells w) a))) \<and>
    (\<forall>a \<in> set (inorder t). subscript d this (key_of (cells w) a) w = Some (Ptr a, w)) \<and>
    subscript_const this k w = at_const this k w \<and>
    (k \<notin> key_of (cells w) ` set (inorder t) \<longrightarrow>
       subscript_const this k w = Some (Inl Index_out_of_bound)) \<and>
    (\<forall>a \<in> set (inorder t). subscript_const this (key_of (cells w) a) w = Some (Inr (Ptr a)))"
proof -
  note ht = map_inv_holds [OF inv]
  have 1: "\<exists>z w' t'. subscript d this k w = Some (Ptr z, w') \<and> map_inv this w' t' \<and>
         z \<notin> set (inorder t) \<and> set (inorder t') = insert z (set (inorder t)) \<and>
         key_of (cells w') z = k \<and> load (Ptr z) w' = Some d \<and>
         size_map this w' = size_map this w + 1 \<and>
         (\<forall>a \<in> set (inorder t). key_of (cells w') a = key_of (cells w) a \<and>
                                 val_of (cells w') a = val_of (cells w) a)"
    if k: "k \<notin> key_of (cells w) ` set (inorder t)"
  proof -
    let ?s = "view this w"
    from inv have T: "tree_at (heap ?s) (root ?s) Null t" and K: "keys_ascending (heap ?s) t"
      and B: "black_root ?s" and A: "\<And>a. heap ?s a \<noteq> None \<Longrightarrow> a < nxt ?s"
      by (simp_all add: map_inv_def rbt_inv_def)
    from k have N: "k \<notin> key_of (heap ?s) ` set (inorder t)" by simp
    from insertNode_new [OF T K B A N, of d] obtain s' t' xs ys where
      r: "insertNode (k, d) ?s = Some (Ptr (nxt ?s), s')"
        "tree_at (heap s') (root s') Null t'" "keys_ascending (heap s') t'" "black_root s'"
        "\<forall>a. heap s' a \<noteq> None \<longrightarrow> a < nxt s'"
        "inorder t = xs @ ys" "inorder t' = xs @ [nxt ?s] @ ys"
        "nxt ?s \<notin> set (inorder t)"
        "key_of (heap s') (nxt ?s) = k" "val_of (heap s') (nxt ?s) = d"
        "\<forall>a. a \<noteq> nxt ?s \<longrightarrow> map_option kv (heap s' a) = map_option kv (heap ?s a)"
        "map_size s' = map_size ?s + 1"
      by blast
    let ?z = "nxt ?s" and ?w = "put this s' w"
    have e: "subscript d this k w = Some (Ptr ?z, ?w)"
      using findNode_absent [OF ht k] r(1) by (simp add: subscript_def)
    have i: "map_inv this ?w t'"
      using r(2,3,4,5) by (simp add: map_inv_def rbt_inv_def)
    have l: "heap s' ?z \<noteq> None"
    proof -
      from r(7) have "?z \<in> set (inorder t')" by simp
      from tree_at_live [OF r(2) this] show ?thesis by simp
    qed
    then have ld: "load (Ptr ?z) ?w = Some d"
      using r(10) by (auto simp: load_def val_of_def)
    have o: "key_of (cells ?w) a = key_of (cells w) a \<and> val_of (cells ?w) a = val_of (cells w) a"
      if "a \<in> set (inorder t)" for a
    proof -
      from that r(8) have "a \<noteq> ?z" by auto
      with r(11) have "map_option kv (heap s' a) = map_option kv (heap ?s a)" by blast
      with kv_key_val [of "heap s'" a "heap ?s"] show ?thesis by simp
    qed
    have st: "set (inorder t') = insert ?z (set (inorder t))"
      using r(6,7) by auto
    from e i r(8,9,12) st ld o show ?thesis
      by (intro exI [of _ ?z] exI [of _ ?w] exI [of _ t']) (simp add: size_map_def)
  qed
  have 2: "subscript d this (key_of (cells w) a) w = Some (Ptr a, w)"
    if "a \<in> set (inorder t)" for a
    using findNode_present [OF ht that] by (simp add: subscript_def)
  have 3: "subscript_const this k w = at_const this k w"
    by (simp add: subscript_const_def)
  have 4: "subscript_const this k w = Some (Inl Index_out_of_bound)"
    if "k \<notin> key_of (cells w) ` set (inorder t)"
    using findNode_absent [OF ht that] by (simp add: subscript_const_def at_const_def)
  have 5: "subscript_const this (key_of (cells w) a) w = Some (Inr (Ptr a))"
    if "a \<in> set (inorder t)" for a
    using findNode_present [OF ht that] by (simp add: subscript_const_def at_const_def)
  from 1 2 3 4 5 show ?thesis by blast
qed

theorem subscript_inserts_witness:
  "(\<exists>z w' t'. subscript 0 1 (5::nat) two_maps = Some (Ptr z, w') \<and> map_inv 1 w' t' \<and>
       z \<notin> set (inorder (Node (Node Leaf 1 Leaf) 0 (Node Leaf 2 Leaf))) \<and>
       key_of (cells w') z = 5 \<and> load (Ptr z) w' = Some 0 \<and>
       size_map 1 w' = size_map 1 two_maps + 1) \<and>
   subscript 0 1 (3::nat) two_maps = Some (Ptr 2, two_maps) \<and>
   subscript_const 1 (5::nat) two_maps = Some (Inl Index_out_of_bound) \<and>
   subscript_const 1 (3::nat) two_maps = Some (Inr (Ptr 2))"
proof -
  let ?t = "Node (Node Leaf 1 Leaf) 0 (Node Leaf 2 Leaf)"
  have inv: "map_inv 1 two_maps ?t"
    by (simp add: map_inv_def rbt_inv_def view_def two_maps_def keys_ascending_def key_of_def
        black_root_def red_def)
  have k5: "(5::nat) \<notin> key_of (cells two_maps) ` set (inorder ?t)"
    by (simp add: two_maps_def key_of_def)
  have k3: "key_of (cells two_maps) 2 = 3" "2 \<in> set (inorder ?t)"
    by (simp_all add: two_maps_def key_of_def)
  from subscript_inserts [OF inv, of 5 0] k5 k3 show ?thesis
    by (metis (no_types, lifting))
qed

section \<open>Insertion, lookup and erasure\<close>

text \<open>
  C4.  The claim: an inserted entry is found by \<open>find\<close> until its key is erased or its value
  is assigned to, and after erasing a key \<open>find\<close> of it is \<open>end()\<close> and \<open>count\<close> of it is 0.

  The code does not deliver the second half for every key it finds.  Inserting 1 to 10 and
  erasing 10, 9, 7, 8, 5, 6, 1 (all these calls return) leaves the black root 4 (cell 3)
  without a right child, whose left child 2 (cell 1) is black and has the black right child
  3 (cell 2); the fix-ups skipped by \<open>deleteNode\<close> for null \<open>x\<close> have left the black counts
  unequal.  \<open>find(2)\<close> returns the iterator to cell 1.  \<open>erase\<close> of that iterator unlinks the
  node: the removed node is black and \<open>x\<close> is the node 3, now the left child of the root.
  \<open>fixDelete(x)\<close> enters its loop (\<open>x\<close> is black and not the root), takes the sibling
  \<open>w = x->parent->right\<close>, which is null, and reads \<open>w->color\<close>.  The call does not return.
\<close>

theorem erase_of_found_key_reads_null_sibling:
  "(case run () 0 [Insert (1::nat) (), Insert 2 (), Insert 3 (), Insert 4 (), Insert 5 (), Insert 6 (),
        Insert 7 (), Insert 8 (), Insert 9 (), Insert 10 (),
        Erase 10, Erase 9, Erase 7, Erase 8, Erase 5, Erase 6, Erase 1] empty_world of
      None \<Rightarrow> False
    | Some w \<Rightarrow>
        holds_tree 0 w (Node (Node Leaf 1 (Node Leaf 2 Leaf)) 3 Leaf) \<and>
        finds 0 w 2 () \<and>
        find_map 0 2 w = Some \<lparr>current = Ptr 1, container = Some 0\<rparr> \<and>
        step () 0 (Erase 2) w = None \<and>
        (case unlink (Ptr 1) (view 0 w) of None \<Rightarrow> False
         | Some (y_original_color, x, s) \<Rightarrow>
             \<not> y_original_color \<and> x = Ptr 2 \<and> root s = Ptr 3 \<and>
             map_option (\<lambda>xn. (color xn, parent xn)) (heap s 2) = Some (False, Ptr 3) \<and>
             map_option (\<lambda>pn. (left pn, right pn)) (heap s 3) = Some (Ptr 2, Null) \<and>
             fixDelete (Ptr 2) s = None))"
  by code_simp

end
